theory Spec2Isabelle
  imports Main "HOL-Library.Sublist" "HOL-Library.Multiset"
begin

section \<open>Data model of \<^verbatim>\<open>huffman.py\<close>\<close>

text \<open>
  The dataclass \<^verbatim>\<open>HuffmanNode\<close> has the fields \<^verbatim>\<open>char_ascii\<close>, \<^verbatim>\<open>freq\<close>,
  \<^verbatim>\<open>left\<close> and \<^verbatim>\<open>right\<close>; the two children are of type
  \<^verbatim>\<open>HTree = Union[None, HuffmanNode]\<close>, which is an option here. Python integers are
  unbounded, so both numeric fields are \<open>int\<close>.
\<close>

datatype HuffmanNode =
  HuffmanNode (char_ascii: int) (freq: int) (left: "HuffmanNode option") (right: "HuffmanNode option")

type_synonym HTree = "HuffmanNode option"

text \<open>The exceptions that the modelled functions can raise.\<close>

datatype error = FileNotFoundError | IndexError | AttributeError | RecursionError

section \<open>Node order and merge\<close>

definition comes_before :: "HuffmanNode \<Rightarrow> HuffmanNode \<Rightarrow> bool" where
  "comes_before a b =
     (if freq a < freq b then True
      else if freq a = freq b then
        (if char_ascii a < char_ascii b then True else False)
      else False)"

definition combine :: "HuffmanNode \<Rightarrow> HuffmanNode \<Rightarrow> HuffmanNode" where
  "combine a b =
     (if freq a < freq b then
        (if char_ascii a < char_ascii b
         then HuffmanNode (char_ascii a) (freq a + freq b) (Some a) (Some b)
         else HuffmanNode (char_ascii b) (freq a + freq b) (Some a) (Some b))
      else if freq a = freq b then
        (if char_ascii a < char_ascii b
         then HuffmanNode (char_ascii a) (freq a + freq b) (Some a) (Some b)
         else HuffmanNode (char_ascii b) (freq a + freq b) (Some b) (Some a))
      else
        (if char_ascii a < char_ascii b
         then HuffmanNode (char_ascii a) (freq a + freq b) (Some b) (Some a)
         else HuffmanNode (char_ascii b) (freq a + freq b) (Some b) (Some a)))"

section \<open>Sorting helper\<close>

text \<open>
  \<^verbatim>\<open>huff_helper\<close> mutates its list argument: a \<^verbatim>\<open>for\<close> loop over
  \<^verbatim>\<open>range(len(huf_lis) - 1)\<close> that, at an adjacent pair for which \<^verbatim>\<open>comes_before\<close>
  is false, swaps the pair, calls \<^verbatim>\<open>huff_helper\<close> on the whole list and then goes on
  with the next index on the list as the call left it. \<open>huff_loop x xs\<close> is the loop
  from index \<open>x\<close> on; it returns the final list.

  \<open>huff_loop\<close> is the recursion as the text of the function gives it, on a call stack
  without bound. It need not end (two nodes with the same weight and the same symbol id
  are swapped for ever), so the function is partial, and \<open>None\<close> is a recursion that
  never comes back. \<open>create_huff_tree\<close> below is written over it. The interpreter's
  bound on the call stack is added in \<open>huff_loop_limit\<close>, and the two are related in
  the section on the sorting helper.
\<close>

partial_function (option) huff_loop :: "nat \<Rightarrow> HuffmanNode list \<Rightarrow> HuffmanNode list option" where
  [code]: "huff_loop x huf_lis =
     (if x + 1 < length huf_lis then
        (if \<not> comes_before (huf_lis ! x) (huf_lis ! (x + 1)) then
           Option.bind
             (huff_loop 0 (huf_lis[x := huf_lis ! (x + 1), x + 1 := huf_lis ! x]))
             (\<lambda>swapped. huff_loop (x + 1) swapped)
         else huff_loop (x + 1) huf_lis)
      else Some huf_lis)"

definition huff_helper :: "HuffmanNode list \<Rightarrow> HuffmanNode list option" where
  "huff_helper huf_lis = huff_loop 0 huf_lis"

text \<open>
  Python runs every call of a function written in Python in a frame of its own and raises
  \<^verbatim>\<open>RecursionError\<close> at a call that would exceed the recursion limit
  (\<^verbatim>\<open>sys.getrecursionlimit()\<close>, 1000 unless it is changed). \<^verbatim>\<open>huff_helper\<close>
  makes two such calls: \<^verbatim>\<open>comes_before\<close>, whose frame is left again at once, and
  \<^verbatim>\<open>huff_helper\<close> itself, whose frame stays while the callee runs, so that every swap
  nests one frame deeper. In \<open>huff_loop_limit frames x xs\<close> the number \<open>frames\<close> is how
  many more frames the interpreter allows below the frame of this call of
  \<^verbatim>\<open>huff_helper\<close>: with none left the call of \<^verbatim>\<open>comes_before\<close> raises; otherwise
  the nested call runs with one frame fewer, and an exception raised in it ends the
  caller as well, since \<^verbatim>\<open>huffman.py\<close> catches nothing. The outer \<open>option\<close> is only
  the form of the definition: the function is proved to return \<open>Some\<close> on every input.
\<close>

partial_function (option) huff_loop_limit ::
    "nat \<Rightarrow> nat \<Rightarrow> HuffmanNode list \<Rightarrow> (error + HuffmanNode list) option" where
  [code]: "huff_loop_limit frames x huf_lis =
     (if x + 1 < length huf_lis then
        (case frames of
           0 \<Rightarrow> Some (Inl RecursionError)
         | Suc deeper \<Rightarrow>
             (if \<not> comes_before (huf_lis ! x) (huf_lis ! (x + 1)) then
                Option.bind
                  (huff_loop_limit deeper 0 (huf_lis[x := huf_lis ! (x + 1), x + 1 := huf_lis ! x]))
                  (\<lambda>called. case called of
                       Inl e \<Rightarrow> Some (Inl e)
                     | Inr swapped \<Rightarrow> huff_loop_limit frames (x + 1) swapped)
              else huff_loop_limit frames (x + 1) huf_lis))
      else Some (Inr huf_lis))"

definition huff_helper_limit :: "nat \<Rightarrow> HuffmanNode list \<Rightarrow> (error + HuffmanNode list) option" where
  "huff_helper_limit frames huf_lis = huff_loop_limit frames 0 huf_lis"

section \<open>Python lists and strings\<close>

text \<open>
  Reading and writing a list element with an integer index, as Python does it:
  \<open>py_index n i\<close> is the position that the index \<open>i\<close> denotes in a list of length
  \<open>n\<close> (a negative index counts from the end), and \<open>None\<close> when the index is out of
  range, where Python raises \<^verbatim>\<open>IndexError\<close>.
\<close>

definition py_index :: "nat \<Rightarrow> int \<Rightarrow> nat option" where
  "py_index n i =
     (if 0 \<le> i \<and> i < int n then Some (nat i)
      else if - int n \<le> i \<and> i < 0 then Some (nat (int n + i))
      else None)"

definition py_get :: "'a list \<Rightarrow> int \<Rightarrow> error + 'a" where
  "py_get xs i =
     (case py_index (length xs) i of
        None \<Rightarrow> Inl IndexError
      | Some j \<Rightarrow> Inr (xs ! j))"

definition py_set :: "'a list \<Rightarrow> int \<Rightarrow> 'a \<Rightarrow> error + 'a list" where
  "py_set xs i v =
     (case py_index (length xs) i of
        None \<Rightarrow> Inl IndexError
      | Some j \<Rightarrow> Inr (xs[j := v]))"

text \<open>\<^verbatim>\<open>str(n)\<close> for an integer: its decimal digits, with a minus sign when negative.\<close>

function str_nat :: "nat \<Rightarrow> string" where
  "str_nat n =
     (if n < 10 then [''0123456789'' ! n]
      else str_nat (n div 10) @ [''0123456789'' ! (n mod 10)])"
  by pat_completeness auto
termination
  by (relation "measure (\<lambda>n. n)") auto

definition py_str :: "int \<Rightarrow> string" where
  "py_str i = (if i < 0 then CHR ''-'' # str_nat (nat (- i)) else str_nat (nat i))"

text \<open>
  A Python \<^verbatim>\<open>str\<close> read from a file is a sequence of Unicode code points, and
  \<^verbatim>\<open>ord\<close> of a character may be any of them, also beyond 255. The text of a file is
  therefore a list of code points, with \<^verbatim>\<open>ord(char)\<close> the number itself. The strings
  that the program builds (codes, header) consist of digits, spaces, minus signs and a
  newline; they are HOL strings, and \<open>text_of\<close> gives their code points when they are
  written to a file.
\<close>

type_synonym pytext = "nat list"

definition text_of :: "string \<Rightarrow> pytext" where
  "text_of s = map of_char s"

text \<open>
  The file system, as far as the program sees it: \<open>fs name\<close> is the text of the regular
  file \<open>name\<close>, and \<open>None\<close> when \<^verbatim>\<open>os.path.isfile\<close> is false.
\<close>

type_synonym filesystem = "string \<rightharpoonup> pytext"

section \<open>Frequency table\<close>

fun cnt_loop :: "int list \<Rightarrow> pytext \<Rightarrow> error + int list" where
  "cnt_loop values [] = Inr values"
| "cnt_loop values (char # data) =
     (case py_get values (int char) of
        Inl e \<Rightarrow> Inl e
      | Inr v \<Rightarrow>
          (case py_set values (int char) (v + 1) of
             Inl e \<Rightarrow> Inl e
           | Inr values' \<Rightarrow> cnt_loop values' data))"

definition cnt_freq :: "filesystem \<Rightarrow> string \<Rightarrow> error + int list" where
  "cnt_freq fs filename =
     (case fs filename of
        None \<Rightarrow> Inl FileNotFoundError
      | Some data \<Rightarrow> cnt_loop (replicate 256 0) data)"

section \<open>Tree construction\<close>

text \<open>
  The first loop of \<^verbatim>\<open>create_huff_tree\<close>: \<open>i\<close> counts the entries, and a leaf is
  appended for each nonzero one.
\<close>

fun leaves_loop :: "HuffmanNode list \<Rightarrow> int \<Rightarrow> int list \<Rightarrow> HuffmanNode list" where
  "leaves_loop huf_lis i [] = huf_lis"
| "leaves_loop huf_lis i (f # char_freq) =
     leaves_loop (if f \<noteq> 0 then huf_lis @ [HuffmanNode i f None None] else huf_lis)
       (i + 1) char_freq"

text \<open>
  \<^verbatim>\<open>huf_lis.sort(key=...freq)\<close> is Python's stable sort on the weight alone; the stable
  sort of the list library, \<open>sort_key freq\<close>, returns the same list. The \<^verbatim>\<open>while\<close>
  loop of \<^verbatim>\<open>create_huff_tree\<close> is \<open>huff_while\<close>; it returns the list it ends with.
\<close>

partial_function (option) huff_while :: "HuffmanNode list \<Rightarrow> HuffmanNode list option" where
  [code]: "huff_while huf_lis =
     (if length huf_lis \<ge> 2 then
        Option.bind
          (huff_helper
             (sort_key freq (drop 2 (huf_lis @ [combine (huf_lis ! 0) (huf_lis ! 1)]))))
          (\<lambda>sorted. huff_while sorted)
      else Some huf_lis)"

text \<open>
  The result of \<^verbatim>\<open>create_huff_tree\<close>: \<open>None\<close> when the call does not return, otherwise
  the exception raised or the value returned, which is Python's \<^verbatim>\<open>None\<close> or a node.
\<close>

definition create_huff_tree :: "int list \<Rightarrow> (error + HTree) option" where
  "create_huff_tree char_freq =
     (if sum_list char_freq = 0 then Some (Inr None)
      else
        Option.bind (huff_helper (sort_key freq (leaves_loop [] 0 char_freq)))
          (\<lambda>huf_lis. Option.bind (huff_while huf_lis)
             (\<lambda>huf_lis. Some (case py_get huf_lis 0 of
                                 Inl e \<Rightarrow> Inl e
                               | Inr root \<Rightarrow> Inr (Some root)))))"

section \<open>Code table\<close>

text \<open>
  \<^verbatim>\<open>create_code_helper\<close> reads \<^verbatim>\<open>node.left\<close> first, which raises
  \<^verbatim>\<open>AttributeError\<close> when the node is \<^verbatim>\<open>None\<close>. It writes into the list it is
  given; the model returns the list.
\<close>

fun create_code_helper :: "HTree \<Rightarrow> string \<Rightarrow> string list \<Rightarrow> error + string list" where
  "create_code_helper None code py_list = Inl AttributeError"
| "create_code_helper (Some (HuffmanNode c f l r)) code py_list =
     (if l = None \<and> r = None then py_set py_list c code
      else
        (case create_code_helper l (code @ ''0'') py_list of
           Inl e \<Rightarrow> Inl e
         | Inr py_list' \<Rightarrow> create_code_helper r (code @ ''1'') py_list'))"

definition create_code :: "HTree \<Rightarrow> error + string list" where
  "create_code node = create_code_helper node [] (replicate 256 [])"

section \<open>Header\<close>

text \<open>The loop of \<^verbatim>\<open>create_header\<close>; \<open>cnt\<close> is the source's counter \<^verbatim>\<open>count\<close>.\<close>

fun header_loop :: "string \<Rightarrow> int \<Rightarrow> int list \<Rightarrow> string" where
  "header_loop header cnt [] = header"
| "header_loop header cnt (f # freqs) =
     header_loop
       (if f \<noteq> 0 then header @ py_str cnt @ '' '' @ py_str f @ '' '' else header)
       (cnt + 1) freqs"

text \<open>
  \<^verbatim>\<open>header[0:len(header) - 1]\<close> drops the last character; on the empty string the
  slice \<^verbatim>\<open>[0:-1]\<close> is empty again, as is \<open>take (0 - 1)\<close> on natural numbers.
\<close>

definition create_header :: "int list \<Rightarrow> string" where
  "create_header freqs =
     (let header = header_loop [] 0 freqs in take (length header - 1) header)"

section \<open>Encoder\<close>

fun encode_loop :: "string \<Rightarrow> string list \<Rightarrow> pytext \<Rightarrow> error + string" where
  "encode_loop code code_list [] = Inr code"
| "encode_loop code code_list (char # phrase) =
     (case py_get code_list (int char) of
        Inl e \<Rightarrow> Inl e
      | Inr c \<Rightarrow> encode_loop (code @ c) code_list phrase)"

text \<open>
  \<^verbatim>\<open>huffman_encode\<close> passes the file system along: the result is the file system it
  leaves behind and the exception it raised, if any; \<open>None\<close> when it does not return.
  Opening the output file with mode \<^verbatim>\<open>"w"\<close> creates it empty; the two writes append
  to it.
\<close>

definition huffman_encode ::
  "filesystem \<Rightarrow> string \<Rightarrow> string \<Rightarrow> (filesystem \<times> error option) option" where
  "huffman_encode fs in_file out_file =
     (case cnt_freq fs in_file of
        Inl e \<Rightarrow> Some (fs, Some e)
      | Inr freqlist \<Rightarrow>
          (case create_huff_tree freqlist of
             None \<Rightarrow> None
           | Some (Inl e) \<Rightarrow> Some (fs, Some e)
           | Some (Inr None) \<Rightarrow> Some (fs(out_file \<mapsto> []), None)
           | Some (Inr (Some huff)) \<Rightarrow>
               (case create_code (Some huff) of
                  Inl e \<Rightarrow> Some (fs, Some e)
                | Inr code_list \<Rightarrow>
                    (case fs in_file of
                       None \<Rightarrow> Some (fs, Some FileNotFoundError)
                     | Some phrase \<Rightarrow>
                         (case encode_loop [] code_list phrase of
                            Inl e \<Rightarrow> Some (fs, Some e)
                          | Inr code \<Rightarrow>
                              (let header = create_header freqlist;
                                   fs1 = fs(out_file \<mapsto> []);
                                   fs2 = fs1(out_file \<mapsto> the (fs1 out_file) @ text_of (header @ [CHR 0x0A]));
                                   fs3 = fs2(out_file \<mapsto> the (fs2 out_file) @ text_of code)
                               in Some (fs3, None)))))))"

section \<open>Notions used in the statements\<close>

text \<open>
  The pair that \<^verbatim>\<open>comes_before\<close> compares. Two nodes are comparable under
  \<open>comes_before\<close> exactly when their keys differ.
\<close>

definition node_key :: "HuffmanNode \<Rightarrow> int \<times> int" where
  "node_key n = (freq n, char_ascii n)"

text \<open>
  \<open>ordered_from x xs\<close>: no adjacent pair of \<open>xs\<close> at an index from \<open>x\<close> on is out of
  order. \<open>inversions xs\<close> counts the pairs of positions, adjacent or not, whose first
  entry does not come before the second; it is the measure along which the recursion of
  \<open>huff_loop\<close> descends.
\<close>

definition ordered_from :: "nat \<Rightarrow> HuffmanNode list \<Rightarrow> bool" where
  "ordered_from x xs = (\<forall>i\<ge>x. i + 1 < length xs \<longrightarrow> comes_before (xs ! i) (xs ! (i + 1)))"

fun inversions :: "HuffmanNode list \<Rightarrow> nat" where
  "inversions [] = 0"
| "inversions (a # xs) = length (filter (\<lambda>b. \<not> comes_before a b) xs) + inversions xs"

text \<open>
  The entries of a frequency table that are not zero, each with its symbol id, in
  ascending order of the ids.
\<close>

definition nonzero_entries :: "int list \<Rightarrow> (int \<times> int) list" where
  "nonzero_entries freqs = [(int i, freqs ! i). i \<leftarrow> [0..<length freqs], freqs ! i \<noteq> 0]"

text \<open>The same list, as the loops of the program collect it, counting from \<open>i\<close>.\<close>

fun entries_from :: "int \<Rightarrow> int list \<Rightarrow> (int \<times> int) list" where
  "entries_from i [] = []"
| "entries_from i (f # freqs) = (if f \<noteq> 0 then [(i, f)] else []) @ entries_from (i + 1) freqs"

text \<open>
  A node is a leaf when it has no child. \<open>leaves t\<close> lists the leaves of a tree from left
  to right, each as the pair of its symbol id and its weight; \<open>nodes t\<close> lists all nodes
  of the tree; \<open>paths t\<close> gives for each leaf the digits on the way from the root to it,
  \<open>0\<close> for a step to the left and \<open>1\<close> for a step to the right.
\<close>

definition is_leaf :: "HuffmanNode \<Rightarrow> bool" where
  "is_leaf n = (left n = None \<and> right n = None)"

fun leaves :: "HTree \<Rightarrow> (int \<times> int) list" where
  "leaves None = []"
| "leaves (Some (HuffmanNode c f l r)) =
     (if l = None \<and> r = None then [(c, f)] else leaves l @ leaves r)"

fun nodes :: "HTree \<Rightarrow> HuffmanNode list" where
  "nodes None = []"
| "nodes (Some (HuffmanNode c f l r)) = HuffmanNode c f l r # nodes l @ nodes r"

fun paths :: "HTree \<Rightarrow> (int \<times> string) list" where
  "paths None = []"
| "paths (Some (HuffmanNode c f l r)) =
     (if l = None \<and> r = None then [(c, [])]
      else map (\<lambda>(c, p). (c, CHR ''0'' # p)) (paths l) @
           map (\<lambda>(c, p). (c, CHR ''1'' # p)) (paths r))"

text \<open>
  The invariant of the data model at one node: its weight is the sum of the weights of
  the leaves below it, and if it is not a leaf it has both children and its symbol id is
  the least symbol id of the leaves below it. \<open>tree_inv\<close> asks this of every node of a
  tree.
\<close>

definition node_inv :: "HuffmanNode \<Rightarrow> bool" where
  "node_inv n =
     (freq n = sum_list (map snd (leaves (Some n))) \<and>
      (\<not> is_leaf n \<longrightarrow>
         left n \<noteq> None \<and> right n \<noteq> None \<and>
         char_ascii n = Min (set (map fst (leaves (Some n))))))"

definition tree_inv :: "HuffmanNode \<Rightarrow> bool" where
  "tree_inv t = (\<forall>n \<in> set (nodes (Some t)). node_inv n)"

text \<open>
  The working list of \<^verbatim>\<open>create_huff_tree\<close> is a forest. Its invariant: every tree
  satisfies \<open>tree_inv\<close>, and no symbol id is at two leaves.
\<close>

definition forest_leaves :: "HuffmanNode list \<Rightarrow> (int \<times> int) list" where
  "forest_leaves ts = concat (map (\<lambda>t. leaves (Some t)) ts)"

definition forest_inv :: "HuffmanNode list \<Rightarrow> bool" where
  "forest_inv ts = ((\<forall>t \<in> set ts. tree_inv t) \<and> distinct (map fst (forest_leaves ts)))"

text \<open>\<open>least_in a S\<close>: the node \<open>a\<close> of \<open>S\<close> comes before every other node of \<open>S\<close>.\<close>

definition least_in :: "HuffmanNode \<Rightarrow> HuffmanNode set \<Rightarrow> bool" where
  "least_in a S = (a \<in> S \<and> (\<forall>z\<in>S. z = a \<or> comes_before a z))"

section \<open>The construction in the words of the specification\<close>

text \<open>
  The specification builds the tree from an unordered collection of nodes: one leaf per
  symbol with a nonzero count; while more than one node remains, the two lowest-order
  nodes are removed, merged, and the result is put back; the node that remains is the
  root. \<open>lowest m ns\<close> is the lowest-order node among \<open>m\<close> and the nodes of \<open>ns\<close>.
\<close>

definition spec_leaves :: "int list \<Rightarrow> HuffmanNode list" where
  "spec_leaves freqs = map (\<lambda>(i, f). HuffmanNode i f None None) (nonzero_entries freqs)"

fun lowest :: "HuffmanNode \<Rightarrow> HuffmanNode list \<Rightarrow> HuffmanNode" where
  "lowest m [] = m"
| "lowest m (n # ns) = lowest (if comes_before n m then n else m) ns"

function spec_build :: "HuffmanNode list \<Rightarrow> HTree" where
  "spec_build [] = None"
| "spec_build [root] = Some root"
| "spec_build (n1 # n2 # ns) =
     (let a = lowest n1 (n2 # ns);
          rest = remove1 a (n1 # n2 # ns);
          b = lowest (hd rest) (tl rest);
          rest' = remove1 b rest
      in spec_build (combine a b # rest'))"
  by pat_completeness auto
termination
proof (relation "measure length")
  show "wf (measure length)" by simp
next
  fix n1 n2 :: HuffmanNode and ns a rest b rest'
  assume a: "a = lowest n1 (n2 # ns)" and rest: "rest = remove1 a (n1 # n2 # ns)"
    and b: "b = lowest (hd rest) (tl rest)" and rest': "rest' = remove1 b rest"
  have mem: "lowest m ms \<in> set (m # ms)" for m ms
    by (induction ms arbitrary: m) auto
  have "a \<in> set (n1 # n2 # ns)" unfolding a by (rule mem)
  then have "length rest = length (n1 # n2 # ns) - 1"
    unfolding rest by (simp only: length_remove1 if_True)
  then have len: "length rest = Suc (length ns)" by simp
  then have "rest \<noteq> []" by auto
  then have "hd rest # tl rest = rest" by simp
  with mem[of "hd rest" "tl rest"] have "b \<in> set rest" unfolding b by simp
  then have "length rest' = length rest - 1"
    unfolding rest' by (simp only: length_remove1 if_True)
  with len have "length rest' = length ns" by simp
  then show "(combine a b # rest', n1 # n2 # ns) \<in> measure length" by simp
qed

text \<open>
  The header in the words of the specification: the pairs of the nonzero entries, in
  ascending order of the symbol ids, joined by single spaces.
\<close>

fun join_space :: "string list \<Rightarrow> string" where
  "join_space [] = []"
| "join_space [p] = p"
| "join_space (p # q # ps) = p @ '' '' @ join_space (q # ps)"

definition serialize_spec :: "int list \<Rightarrow> string" where
  "serialize_spec freqs =
     join_space (map (\<lambda>(i, f). py_str i @ '' '' @ py_str f) (nonzero_entries freqs))"


section \<open>The node order\<close>

lemma comes_before_trans: "comes_before a b \<Longrightarrow> comes_before b c \<Longrightarrow> comes_before a c"
  by (auto simp: comes_before_def split: if_splits)

lemma comes_before_irrefl: "\<not> comes_before a a"
  by (simp add: comes_before_def)

lemma comes_before_asym: "comes_before a b \<Longrightarrow> \<not> comes_before b a"
  by (auto simp: comes_before_def split: if_splits)

lemma comes_before_total: "node_key a \<noteq> node_key b \<Longrightarrow> comes_before a b \<or> comes_before b a"
  by (auto simp: comes_before_def node_key_def)

lemma comes_before_key_neq: "comes_before a b \<Longrightarrow> node_key a \<noteq> node_key b"
  by (auto simp: comes_before_def node_key_def split: if_splits)

section \<open>Merge\<close>

text \<open>
  Claim C2. For any two nodes \<open>x\<close> and \<open>y\<close>, in either argument order, \<open>combine x y\<close>
  is a node with both children present, whose weight is the sum of the two weights and
  whose symbol id is the smaller of the two ids; its left child is the one of \<open>x\<close> and
  \<open>y\<close> that comes before the other and its right child is the other one. Hence
  \<open>combine x y = combine y x\<close> whenever one of the two comes before the other.
\<close>

theorem combine_canonical:
  "freq (combine x y) = freq x + freq y \<and>
   char_ascii (combine x y) = min (char_ascii x) (char_ascii y) \<and>
   ((left (combine x y) = Some x \<and> right (combine x y) = Some y) \<or>
    (left (combine x y) = Some y \<and> right (combine x y) = Some x)) \<and>
   (comes_before x y \<longrightarrow> left (combine x y) = Some x \<and> right (combine x y) = Some y) \<and>
   (comes_before y x \<longrightarrow> left (combine x y) = Some y \<and> right (combine x y) = Some x) \<and>
   (comes_before x y \<or> comes_before y x \<longrightarrow> combine x y = combine y x)"
  by (auto simp: combine_def comes_before_def split: if_splits)

theorem combine_canonical_witness:
  "comes_before (HuffmanNode 99 2 None None) (HuffmanNode 97 3 None None) \<and>
   combine (HuffmanNode 97 3 None None) (HuffmanNode 99 2 None None) =
     HuffmanNode 97 5 (Some (HuffmanNode 99 2 None None)) (Some (HuffmanNode 97 3 None None)) \<and>
   combine (HuffmanNode 99 2 None None) (HuffmanNode 97 3 None None) =
     HuffmanNode 97 5 (Some (HuffmanNode 99 2 None None)) (Some (HuffmanNode 97 3 None None))"
  using combine_canonical [of "HuffmanNode 97 3 None None" "HuffmanNode 99 2 None None"]
  by (simp add: comes_before_def combine_def)

section \<open>The sorting helper\<close>

lemma inversions_swap:
  "\<not> comes_before a b \<Longrightarrow> comes_before b a \<Longrightarrow>
   inversions (pre @ b # a # post) < inversions (pre @ a # b # post)"
  by (induction pre) auto

lemma swap_decomp:
  assumes "x + 1 < length xs"
  shows "xs = take x xs @ xs ! x # xs ! (x + 1) # drop (x + 2) xs"
    and "xs[x := xs ! (x + 1), x + 1 := xs ! x] = take x xs @ xs ! (x + 1) # xs ! x # drop (x + 2) xs"
proof -
  from assms have x: "x < length xs" by simp
  show 1: "xs = take x xs @ xs ! x # xs ! (x + 1) # drop (x + 2) xs"
    using assms x by (metis Cons_nth_drop_Suc Suc_eq_plus1 add_2_eq_Suc' append_take_drop_id)
  have "length (take x xs) = x" using x by simp
  then show "xs[x := xs ! (x + 1), x + 1 := xs ! x] = take x xs @ xs ! (x + 1) # xs ! x # drop (x + 2) xs"
    by (subst 1, subst (4) 1) (simp add: list_update_append nth_append)
qed

lemma ordered_from_id:
  "ordered_from x xs \<Longrightarrow> huff_loop x xs = Some xs"
proof (induction "length xs - x" arbitrary: x)
  case 0
  then show ?case by (subst huff_loop.simps) simp
next
  case (Suc k)
  show ?case
  proof (cases "x + 1 < length xs")
    case True
    with Suc.prems have cb: "comes_before (xs ! x) (xs ! (x + 1))"
      by (simp add: ordered_from_def)
    from Suc.prems have "ordered_from (x + 1) xs" by (simp add: ordered_from_def)
    moreover from Suc.hyps(2) have "k = length xs - (x + 1)" by simp
    ultimately have "huff_loop (x + 1) xs = Some xs" using Suc.hyps(1) by blast
    with True cb show ?thesis by (subst huff_loop.simps) simp
  next
    case False
    then show ?thesis by (subst huff_loop.simps) simp
  qed
qed

lemma ordered_from_0_sorted:
  "ordered_from 0 xs \<longleftrightarrow> sorted_wrt comes_before xs"
proof -
  have "transp comes_before" by (auto intro: transpI comes_before_trans)
  then have "sorted_wrt comes_before xs \<longleftrightarrow> (\<forall>i. Suc i < length xs \<longrightarrow> comes_before (xs ! i) (xs ! Suc i))"
    by (rule sorted_wrt_iff_nth_Suc_transp)
  then show ?thesis by (simp add: ordered_from_def)
qed

lemma ordered_from_mono: "ordered_from 0 xs \<Longrightarrow> ordered_from x xs"
  by (simp add: ordered_from_def)

lemma mset_swap_adjacent: "x + 1 < length xs \<Longrightarrow> mset (xs[x := xs ! (x + 1), x + 1 := xs ! x]) = mset xs"
  by (simp add: mset_swap)

lemma huff_loop_total:
  "distinct (map node_key xs) \<Longrightarrow>
   \<exists>ys. huff_loop x xs = Some ys \<and> mset ys = mset xs \<and>
        (if ordered_from x xs then ys = xs else sorted_wrt comes_before ys)"
proof (induction "(inversions xs, length xs - x)" arbitrary: xs x rule: wf_induct_rule[OF wf_less_than[THEN wf_lex_prod[OF wf_less_than]]])
  case less: 1
  show ?case
  proof (cases "x + 1 < length xs")
    case False
    then have "huff_loop x xs = Some xs" by (subst huff_loop.simps) simp
    moreover from False have "ordered_from x xs" by (simp add: ordered_from_def)
    ultimately show ?thesis by simp
  next
    case True
    show ?thesis
    proof (cases "comes_before (xs ! x) (xs ! (x + 1))")
      case cb: True
      have "((inversions xs, length xs - (x + 1)), (inversions xs, length xs - x)) \<in> less_than <*lex*> less_than"
        using True by simp
      from less.hyps[OF this less.prems] obtain ys where
        ys: "huff_loop (x + 1) xs = Some ys" "mset ys = mset xs"
          "if ordered_from (x + 1) xs then ys = xs else sorted_wrt comes_before ys"
        by blast
      have eq: "huff_loop x xs = huff_loop (x + 1) xs"
        using True cb by (subst huff_loop.simps) simp
      have "ordered_from x xs \<longleftrightarrow> ordered_from (x + 1) xs"
        unfolding ordered_from_def using cb
        by (metis Suc_eq_plus1 Suc_leI le_neq_implies_less order.strict_implies_order add_leD1 le_add1 le_eq_less_or_eq)
      with ys eq show ?thesis by auto
    next
      case ncb: False
      let ?sw = "xs[x := xs ! (x + 1), x + 1 := xs ! x]"
      have x: "x < length xs" using True by simp
      have neq: "node_key (xs ! x) \<noteq> node_key (xs ! (x + 1))"
      proof -
        have "map node_key xs ! x \<noteq> map node_key xs ! (x + 1)"
          using less.prems True x by (simp add: nth_eq_iff_index_eq del: nth_map)
        then show ?thesis using True x by simp
      qed
      with ncb have cb': "comes_before (xs ! (x + 1)) (xs ! x)"
        using comes_before_total by blast
      have inv: "inversions ?sw < inversions xs"
        using inversions_swap[OF ncb cb', of "take x xs" "drop (x + 2) xs"]
          swap_decomp[OF True] by simp
      have msw: "mset ?sw = mset xs" using True by (rule mset_swap_adjacent)
      then have "mset (map node_key ?sw) = mset (map node_key xs)" by (metis mset_map)
      then have dsw: "distinct (map node_key ?sw)"
        using less.prems by (metis mset_eq_imp_distinct_iff)
      have "((inversions ?sw, length ?sw - 0), (inversions xs, length xs - x)) \<in> less_than <*lex*> less_than"
        using inv by simp
      from less.hyps[OF this dsw] obtain zs where
        zs: "huff_loop 0 ?sw = Some zs" "mset zs = mset ?sw"
          "if ordered_from 0 ?sw then zs = ?sw else sorted_wrt comes_before zs"
        by blast
      have szs: "sorted_wrt comes_before zs"
        using zs(3) by (auto simp: ordered_from_0_sorted split: if_splits)
      then have "huff_loop (x + 1) zs = Some zs"
        by (simp add: ordered_from_id ordered_from_mono ordered_from_0_sorted)
      with zs(1) True ncb have "huff_loop x xs = Some zs"
        by (subst huff_loop.simps) simp
      moreover have "\<not> ordered_from x xs"
        using True ncb by (auto simp: ordered_from_def)
      ultimately show ?thesis using szs zs(2) msw by simp
    qed
  qed
qed

lemma huff_loop_partial:
  assumes ret: "huff_loop x0 xs0 = Some ys0"
  shows "mset ys0 = mset xs0 \<and> (ys0 = xs0 \<or> ordered_from 0 ys0) \<and> ordered_from x0 ys0"
proof -
  let ?P = "\<lambda>x xs ys. mset ys = mset xs \<and> (ys = xs \<or> ordered_from 0 ys) \<and> ordered_from x ys"
  have "(case (x0, xs0) of (x, xs) \<Rightarrow> ?P x xs) ys0"
  proof (rule huff_loop.raw_induct[where P = ?P])
    show "(case (x0, xs0) of (x, xs) \<Rightarrow> huff_loop x xs) = Some ys0"
      using ret by simp
  next
    fix f x xs ys
    assume 1: "\<And>x xs ys. f x xs = Some ys \<Longrightarrow> ?P x xs ys"
      "(if x + 1 < length xs
        then if \<not> comes_before (xs ! x) (xs ! (x + 1))
             then Option.bind (f 0 (xs[x := xs ! (x + 1), x + 1 := xs ! x])) (f (x + 1))
             else f (x + 1) xs
        else Some xs) = Some ys"
    show "?P x xs ys"
  proof (cases "x + 1 < length xs")
    case False
    with 1(2) show ?thesis by (simp add: ordered_from_def)
  next
    case True
    show ?thesis
    proof (cases "comes_before (xs ! x) (xs ! (x + 1))")
      case cb: True
      with True 1(2) have "f (x + 1) xs = Some ys" by simp
      from 1(1)[OF this] have ih: "mset ys = mset xs" "ys = xs \<or> ordered_from 0 ys" "ordered_from (x + 1) ys"
        by simp_all
      have "ordered_from x ys"
      proof (cases "ys = xs")
        case True
        with ih(3) cb show ?thesis
          unfolding ordered_from_def
          by (metis Suc_eq_plus1 Suc_leI le_neq_implies_less)
      next
        case False
        with ih(2) show ?thesis by (simp add: ordered_from_mono)
      qed
      with ih show ?thesis by simp
    next
      case ncb: False
      let ?sw = "xs[x := xs ! (x + 1), x + 1 := xs ! x]"
      from True ncb 1(2) obtain zs where zs: "f 0 ?sw = Some zs" "f (x + 1) zs = Some ys"
        by (auto simp: bind_eq_Some_conv)
      from 1(1)[OF zs(1)] have z: "mset zs = mset ?sw" "ordered_from 0 zs" by simp_all
      from 1(1)[OF zs(2)] have y: "mset ys = mset zs" "ys = zs \<or> ordered_from 0 ys" by simp_all
      from z y have "ordered_from 0 ys" by auto
      moreover have "mset ys = mset xs" using y(1) z(1) mset_swap_adjacent[OF True] by simp
      ultimately show ?thesis by (simp add: ordered_from_mono)
    qed
  qed
  qed
  then show ?thesis by simp
qed

lemma sorted_wrt_distinct_keys:
  "sorted_wrt comes_before xs \<Longrightarrow> distinct (map node_key xs)"
  by (induction xs) (auto dest: comes_before_key_neq)

lemma huff_helper_returns_iff:
  "(\<exists>ys. huff_helper xs = Some ys) \<longleftrightarrow> distinct (map node_key xs)"
proof
  assume "\<exists>ys. huff_helper xs = Some ys"
  then obtain ys where ys: "huff_loop 0 xs = Some ys" by (auto simp: huff_helper_def)
  from huff_loop_partial[OF this] have "mset ys = mset xs" "sorted_wrt comes_before ys"
    by (simp_all add: ordered_from_0_sorted)
  then have "distinct (map node_key ys)" "mset (map node_key ys) = mset (map node_key xs)"
    by (simp_all add: sorted_wrt_distinct_keys)
  then show "distinct (map node_key xs)" by (metis mset_eq_imp_distinct_iff)
next
  assume "distinct (map node_key xs)"
  from huff_loop_total[OF this, of 0] show "\<exists>ys. huff_helper xs = Some ys"
    by (auto simp: huff_helper_def)
qed

lemma huff_helper_sorted:
  "huff_helper xs = Some ys \<Longrightarrow> mset ys = mset xs \<and> sorted_wrt comes_before ys"
  using huff_loop_partial[of 0 xs ys] by (simp add: huff_helper_def ordered_from_0_sorted)


subsection \<open>With the recursion limit\<close>

text \<open>
  A swap of an out-of-order adjacent pair of a list with pairwise distinct keys removes
  exactly one inversion, and every swap is made one frame deeper than the one before, so
  the frames that a call needs are the inversions of its list, and one more for the calls
  of \<^verbatim>\<open>comes_before\<close> in the deepest frame. Whenever the call with the limit returns a
  list, the recursion without the limit returns the same list.
\<close>

lemma inversions_swap_Suc:
  "\<not> comes_before a b \<Longrightarrow> comes_before b a \<Longrightarrow>
   inversions (pre @ a # b # post) = Suc (inversions (pre @ b # a # post))"
  by (induction pre) auto

lemma sorted_inversions:
  "sorted_wrt comes_before xs \<Longrightarrow> inversions xs = 0"
  by (induction xs) auto

lemma huff_loop_limit_agrees:
  assumes ret: "huff_loop_limit d0 x0 xs0 = Some res0"
  shows "case res0 of Inl e \<Rightarrow> e = RecursionError | Inr ys \<Rightarrow> huff_loop x0 xs0 = Some ys"
proof -
  let ?P = "\<lambda>(d::nat) x xs res. case res of Inl e \<Rightarrow> e = RecursionError | Inr ys \<Rightarrow> huff_loop x xs = Some ys"
  have "(case ((d0, x0), xs0) of (p, xs) \<Rightarrow> (case p of (d, x) \<Rightarrow> ?P d x) xs) res0"
  proof (rule huff_loop_limit.raw_induct[where P = ?P])
    show "(case ((d0, x0), xs0) of (p, xs) \<Rightarrow> (case p of (d, x) \<Rightarrow> huff_loop_limit d x) xs) = Some res0"
      using ret by simp
  next
    fix f d x xs res
    assume 1: "\<And>d x xs res. f d x xs = Some res \<Longrightarrow> ?P d x xs res"
      "(if x + 1 < length xs
        then case d of 0 \<Rightarrow> Some (Inl RecursionError)
             | Suc deeper \<Rightarrow>
                 if \<not> comes_before (xs ! x) (xs ! (x + 1))
                 then Option.bind (f deeper 0 (xs[x := xs ! (x + 1), x + 1 := xs ! x]))
                        (\<lambda>called. case called of Inl e \<Rightarrow> Some (Inl e)
                           | Inr swapped \<Rightarrow> f d (x + 1) swapped)
                 else f d (x + 1) xs
        else Some (Inr xs)) = Some res"
    show "?P d x xs res"
    proof (cases "x + 1 < length xs")
      case False
      with 1(2) have "res = Inr xs" by simp
      moreover from False have "huff_loop x xs = Some xs" by (subst huff_loop.simps) simp
      ultimately show ?thesis by simp
    next
      case True
      show ?thesis
      proof (cases d)
        case 0
        with True 1(2) show ?thesis by auto
      next
        case (Suc k)
        show ?thesis
        proof (cases "comes_before (xs ! x) (xs ! (x + 1))")
          case cb: True
          with True Suc 1(2) have "f d (x + 1) xs = Some res" by simp
          from 1(1)[OF this] have ih: "?P d (x + 1) xs res" .
          have eq: "huff_loop x xs = huff_loop (x + 1) xs"
            using True cb by (subst huff_loop.simps) simp
          with ih show ?thesis by (cases res) simp_all
        next
          case ncb: False
          let ?sw = "xs[x := xs ! (x + 1), x + 1 := xs ! x]"
          from True Suc ncb 1(2) have
            "Option.bind (f k 0 ?sw)
               (\<lambda>called. case called of Inl e \<Rightarrow> Some (Inl e)
                  | Inr swapped \<Rightarrow> f d (x + 1) swapped) = Some res"
            by (simp cong: sum.case_cong)
          then obtain called where c:
            "f k 0 ?sw = Some called"
            "(case called of Inl e \<Rightarrow> Some (Inl e) | Inr swapped \<Rightarrow> f d (x + 1) swapped) = Some res"
            unfolding bind_eq_Some_conv by blast
          have eq: "huff_loop x xs = Option.bind (huff_loop 0 ?sw) (huff_loop (x + 1))"
            using True ncb by (subst huff_loop.simps) simp
          show ?thesis
          proof (cases called)
            case (Inl e)
            with 1(1)[OF c(1)] c(2) show ?thesis by auto
          next
            case (Inr zs)
            with 1(1)[OF c(1)] have z: "huff_loop 0 ?sw = Some zs" by simp
            from Inr c(2) have "f d (x + 1) zs = Some res" by simp
            from 1(1)[OF this] have "?P d (x + 1) zs res" .
            with z eq show ?thesis by (cases res) simp_all
          qed
        qed
      qed
    qed
  qed
  then show ?thesis by simp
qed

lemma huff_loop_limit_returns:
  "\<exists>res. huff_loop_limit d x xs = Some res"
proof (induction "(d, length xs - x)" arbitrary: d xs x rule: wf_induct_rule[OF wf_less_than[THEN wf_lex_prod[OF wf_less_than]]])
  case less: 1
  show ?case
  proof (cases "x + 1 < length xs")
    case False
    then show ?thesis by (subst huff_loop_limit.simps) simp
  next
    case True
    show ?thesis
    proof (cases d)
      case 0
      with True show ?thesis by (subst huff_loop_limit.simps) simp
    next
      case (Suc k)
      show ?thesis
      proof (cases "comes_before (xs ! x) (xs ! (x + 1))")
        case cb: True
        have "((d, length xs - (x + 1)), (d, length xs - x)) \<in> less_than <*lex*> less_than"
          using True by simp
        from less.hyps[OF this] obtain res where "huff_loop_limit d (x + 1) xs = Some res" by blast
        with True Suc cb show ?thesis by (subst huff_loop_limit.simps) simp
      next
        case ncb: False
        let ?sw = "xs[x := xs ! (x + 1), x + 1 := xs ! x]"
        have "((k, length ?sw - 0), (d, length xs - x)) \<in> less_than <*lex*> less_than"
          using Suc by simp
        from less.hyps[OF this] obtain called where c: "huff_loop_limit k 0 ?sw = Some called" by blast
        show ?thesis
        proof (cases called)
          case (Inl e)
          with c True Suc ncb show ?thesis by (subst huff_loop_limit.simps) simp
        next
          case (Inr zs)
          with huff_loop_limit_agrees[OF c] have "huff_loop 0 ?sw = Some zs" by simp
          from huff_loop_partial[OF this] have "mset zs = mset ?sw" by simp
          then have "length zs = length xs" using mset_eq_length by fastforce
          then have "((d, length zs - (x + 1)), (d, length xs - x)) \<in> less_than <*lex*> less_than"
            using True by simp
          from less.hyps[OF this] obtain res where "huff_loop_limit d (x + 1) zs = Some res" by blast
          with c Inr True Suc ncb show ?thesis by (subst huff_loop_limit.simps) simp
        qed
      qed
    qed
  qed
qed

lemma huff_loop_limit_ordered:
  "ordered_from x xs \<Longrightarrow>
   huff_loop_limit d x xs = Some (if x + 1 < length xs \<and> d = 0 then Inl RecursionError else Inr xs)"
proof (induction "length xs - x" arbitrary: x)
  case 0
  then show ?case by (subst huff_loop_limit.simps) simp
next
  case (Suc k)
  show ?case
  proof (cases "x + 1 < length xs")
    case False
    then show ?thesis by (subst huff_loop_limit.simps) simp
  next
    case True
    show ?thesis
    proof (cases d)
      case 0
      with True show ?thesis by (subst huff_loop_limit.simps) simp
    next
      case d: (Suc j)
      from True Suc.prems have cb: "comes_before (xs ! x) (xs ! (x + 1))"
        by (simp add: ordered_from_def)
      from Suc.prems have "ordered_from (x + 1) xs" by (simp add: ordered_from_def)
      moreover from Suc.hyps(2) have "k = length xs - (x + 1)" by simp
      ultimately have "huff_loop_limit d (x + 1) xs = Some (Inr xs)"
        using Suc.hyps(1) d by simp
      with True cb d show ?thesis by (subst huff_loop_limit.simps) simp
    qed
  qed
qed

lemma huff_loop_limit_exact:
  "distinct (map node_key xs) \<Longrightarrow> \<not> ordered_from x xs \<Longrightarrow>
   (if inversions xs < d
    then \<exists>ys. huff_loop_limit d x xs = Some (Inr ys) \<and> mset ys = mset xs \<and> sorted_wrt comes_before ys
    else huff_loop_limit d x xs = Some (Inl RecursionError))"
proof (induction "(inversions xs, length xs - x)" arbitrary: xs x d rule: wf_induct_rule[OF wf_less_than[THEN wf_lex_prod[OF wf_less_than]]])
  case less: 1
  from less.prems(2) have True: "x + 1 < length xs"
    by (auto simp: ordered_from_def)
  show ?case
  proof (cases "comes_before (xs ! x) (xs ! (x + 1))")
    case cb: True
    have m: "((inversions xs, length xs - (x + 1)), (inversions xs, length xs - x)) \<in> less_than <*lex*> less_than"
      using True by simp
    have "ordered_from x xs \<longleftrightarrow> ordered_from (x + 1) xs"
      unfolding ordered_from_def using cb
      by (metis Suc_eq_plus1 Suc_leI le_neq_implies_less order.strict_implies_order add_leD1 le_add1 le_eq_less_or_eq)
    with less.prems(2) have no: "\<not> ordered_from (x + 1) xs" by simp
    note ih = less.hyps[OF m less.prems(1) no, of d]
    show ?thesis
    proof (cases d)
      case 0
      with True show ?thesis by (subst huff_loop_limit.simps, subst huff_loop_limit.simps) simp
    next
      case (Suc j)
      have eq: "huff_loop_limit d x xs = huff_loop_limit d (x + 1) xs"
        using True cb Suc by (subst huff_loop_limit.simps) simp
      show ?thesis unfolding eq using ih .
    qed
  next
    case ncb: False
    let ?sw = "xs[x := xs ! (x + 1), x + 1 := xs ! x]"
    have x: "x < length xs" using True by simp
    have neq: "node_key (xs ! x) \<noteq> node_key (xs ! (x + 1))"
    proof -
      have "map node_key xs ! x \<noteq> map node_key xs ! (x + 1)"
        using less.prems(1) True x by (simp add: nth_eq_iff_index_eq del: nth_map)
      then show ?thesis using True x by simp
    qed
    with ncb have cb': "comes_before (xs ! (x + 1)) (xs ! x)"
      using comes_before_total by blast
    have inv: "inversions xs = Suc (inversions ?sw)"
      using inversions_swap_Suc[OF ncb cb', of "take x xs" "drop (x + 2) xs"]
        swap_decomp[OF True] by simp
    have msw: "mset ?sw = mset xs" using True by (rule mset_swap_adjacent)
    then have "mset (map node_key ?sw) = mset (map node_key xs)" by (metis mset_map)
    then have dsw: "distinct (map node_key ?sw)"
      using less.prems(1) by (metis mset_eq_imp_distinct_iff)
    have len: "1 < length ?sw" using True by simp
    show ?thesis
    proof (cases d)
      case 0
      with True show ?thesis by (subst huff_loop_limit.simps, subst huff_loop_limit.simps) simp
    next
      case (Suc j)
      have unf: "huff_loop_limit d x xs =
          Option.bind (huff_loop_limit j 0 ?sw)
            (\<lambda>called. case called of Inl e \<Rightarrow> Some (Inl e)
               | Inr swapped \<Rightarrow> huff_loop_limit d (x + 1) swapped)"
        using True ncb Suc by (subst huff_loop_limit.simps) simp
      have inner: "if inversions ?sw < j
          then \<exists>zs. huff_loop_limit j 0 ?sw = Some (Inr zs) \<and> mset zs = mset ?sw \<and> sorted_wrt comes_before zs
          else huff_loop_limit j 0 ?sw = Some (Inl RecursionError)"
      proof (cases "ordered_from 0 ?sw")
        case o: True
        then have "inversions ?sw = 0" by (simp add: ordered_from_0_sorted sorted_inversions)
        moreover have "huff_loop_limit j 0 ?sw = Some (if 0 + 1 < length ?sw \<and> j = 0 then Inl RecursionError else Inr ?sw)"
          using o by (rule huff_loop_limit_ordered)
        ultimately show ?thesis using len o by (auto simp: ordered_from_0_sorted)
      next
        case no: False
        have "((inversions ?sw, length ?sw - 0), (inversions xs, length xs - x)) \<in> less_than <*lex*> less_than"
          using inv by simp
        from less.hyps[OF this dsw no, of j] show ?thesis .
      qed
      show ?thesis
      proof (cases "inversions xs < d")
        case lt: True
        with inv Suc have "inversions ?sw < j" by simp
        with inner obtain zs where zs: "huff_loop_limit j 0 ?sw = Some (Inr zs)"
          "mset zs = mset ?sw" "sorted_wrt comes_before zs" by auto
        have "huff_loop_limit d (x + 1) zs = Some (Inr zs)"
          using huff_loop_limit_ordered[of "x + 1" zs d] zs(3) Suc
          by (simp add: ordered_from_mono ordered_from_0_sorted)
        with zs(1) unf have "huff_loop_limit d x xs = Some (Inr zs)" by simp
        with zs msw lt show ?thesis by simp
      next
        case ge: False
        with inv Suc have "\<not> inversions ?sw < j" by simp
        with inner have "huff_loop_limit j 0 ?sw = Some (Inl RecursionError)" by simp
        with unf ge show ?thesis by simp
      qed
    qed
  qed
qed

lemma huff_helper_limit_sorted:
  assumes "huff_helper_limit d xs = Some (Inr ys)"
  shows "huff_helper xs = Some ys" and "mset ys = mset xs" and "sorted_wrt comes_before ys"
proof -
  from assms have "huff_loop_limit d 0 xs = Some (Inr ys)" by (simp add: huff_helper_limit_def)
  from huff_loop_limit_agrees[OF this] show 1: "huff_helper xs = Some ys"
    by (simp add: huff_helper_def)
  from huff_helper_sorted[OF 1] show "mset ys = mset xs" "sorted_wrt comes_before ys" by simp_all
qed

lemma huff_helper_limit_cases:
  "huff_helper_limit d xs =
     (if distinct (map node_key xs) \<and> (length xs \<le> 1 \<or> inversions xs < d)
      then map_option Inr (huff_helper xs) else Some (Inl RecursionError))"
proof (cases "distinct (map node_key xs) \<and> (length xs \<le> 1 \<or> inversions xs < d)")
  case True
  then have dk: "distinct (map node_key xs)" and en: "length xs \<le> 1 \<or> inversions xs < d" by simp_all
  have "\<exists>ys. huff_helper_limit d xs = Some (Inr ys)"
  proof (cases "ordered_from 0 xs")
    case o: True
    then have "inversions xs = 0" by (simp add: ordered_from_0_sorted sorted_inversions)
    with en have "\<not> (0 + 1 < length xs \<and> d = 0)" by auto
    with huff_loop_limit_ordered[OF o, of d] show ?thesis
      by (simp add: huff_helper_limit_def)
  next
    case no: False
    then have "1 < length xs" by (auto simp: ordered_from_def)
    with en have "inversions xs < d" by simp
    with huff_loop_limit_exact[OF dk no, of d] show ?thesis
      by (auto simp: huff_helper_limit_def)
  qed
  then obtain ys where ys: "huff_helper_limit d xs = Some (Inr ys)" by blast
  from huff_helper_limit_sorted(1)[OF this] ys True show ?thesis by simp
next
  case False
  obtain res where res: "huff_helper_limit d xs = Some res"
    using huff_loop_limit_returns[of d 0 xs] by (auto simp: huff_helper_limit_def)
  have "res = Inl RecursionError"
  proof (cases res)
    case (Inl e)
    with huff_loop_limit_agrees[of d 0 xs res] res show ?thesis
      by (simp add: huff_helper_limit_def)
  next
    case (Inr ys)
    with res have r: "huff_helper_limit d xs = Some (Inr ys)" by simp
    from huff_helper_limit_sorted(1)[OF r] huff_helper_returns_iff[of xs]
    have dk: "distinct (map node_key xs)" by blast
    with False have big: "1 < length xs" "\<not> inversions xs < d" by simp_all
    have "huff_helper_limit d xs = Some (Inl RecursionError)"
    proof (cases "ordered_from 0 xs")
      case o: True
      then have "inversions xs = 0" by (simp add: ordered_from_0_sorted sorted_inversions)
      with big have "0 + 1 < length xs \<and> d = 0" by simp
      with huff_loop_limit_ordered[OF o, of d] show ?thesis
        by (simp add: huff_helper_limit_def)
    next
      case no: False
      from huff_loop_limit_exact[OF dk no, of d] big show ?thesis
        by (simp add: huff_helper_limit_def)
    qed
    with r show ?thesis by simp
  qed
  with res False show ?thesis by auto
qed




text \<open>
  It also fails on lists without ties that are far enough out of order: 46 nodes in
  descending order of weight have 1035 inversions, more than the 1000 frames of the
  default recursion limit.
\<close>

lemma huff_helper_limit_reversed:
  "distinct (map node_key (map (\<lambda>i. HuffmanNode (int i) (46 - int i) None None) [0..<46])) \<and>
   inversions (map (\<lambda>i. HuffmanNode (int i) (46 - int i) None None) [0..<46]) = 1035 \<and>
   huff_helper_limit 1000 (map (\<lambda>i. HuffmanNode (int i) (46 - int i) None None) [0..<46]) =
     Some (Inl RecursionError)"
proof -
  let ?xs = "map (\<lambda>i. HuffmanNode (int i) (46 - int i) None None) [0..<46]"
  have d: "distinct (map node_key ?xs)" by code_simp
  have i: "inversions ?xs = 1035" by code_simp
  have "huff_helper_limit 1000 ?xs = Some (Inl RecursionError)"
    by (subst huff_helper_limit_cases) (simp only: i length_map length_upt, simp)
  with d i show ?thesis by simp
qed

section \<open>The frequency table\<close>

lemma py_index_nat: "py_index n (int c) = (if c < n then Some c else None)"
  by (simp add: py_index_def)

lemma py_get_nat: "py_get xs (int c) = (if c < length xs then Inr (xs ! c) else Inl IndexError)"
  by (simp add: py_get_def py_index_nat)

lemma py_set_nat: "py_set xs (int c) v = (if c < length xs then Inr (xs[c := v]) else Inl IndexError)"
  by (simp add: py_set_def py_index_nat)

lemma cnt_loop_error: "cnt_loop vs data = Inl e \<Longrightarrow> e = IndexError"
  by (induction data arbitrary: vs) (auto simp: py_get_nat py_set_nat split: if_splits)

lemma cnt_loop_counts:
  "\<forall>c\<in>set data. c < length vs \<Longrightarrow>
   \<exists>r. cnt_loop vs data = Inr r \<and> length r = length vs \<and>
       (\<forall>i<length vs. r ! i = vs ! i + int (count_list data i))"
proof (induction data arbitrary: vs)
  case Nil
  then show ?case by simp
next
  case (Cons c data)
  then have c: "c < length vs" by simp
  let ?vs = "vs[c := vs ! c + 1]"
  from Cons.prems have "\<forall>d\<in>set data. d < length ?vs" by simp
  from Cons.IH[OF this] obtain r where r: "cnt_loop ?vs data = Inr r" "length r = length vs"
    "\<forall>i<length vs. r ! i = ?vs ! i + int (count_list data i)" by auto
  have "cnt_loop vs (c # data) = Inr r" using c r(1) by (simp add: py_get_nat py_set_nat)
  moreover have "\<forall>i<length vs. r ! i = vs ! i + int (count_list (c # data) i)"
    using r(3) c by (auto simp: nth_list_update)
  ultimately show ?case using r(2) by blast
qed

lemma cnt_loop_range:
  "cnt_loop vs data = Inr r \<Longrightarrow> \<forall>c\<in>set data. c < length vs"
proof (induction data arbitrary: vs)
  case Nil
  then show ?case by simp
next
  case (Cons c data)
  from Cons.prems have c: "c < length vs"
    by (auto simp: py_get_nat split: if_splits)
  with Cons.prems have "cnt_loop (vs[c := vs ! c + 1]) data = Inr r"
    by (simp add: py_get_nat py_set_nat)
  from Cons.IH[OF this] c show ?case by simp
qed

lemma cnt_freq_not_found: "cnt_freq fs f = Inl FileNotFoundError \<longleftrightarrow> fs f = None"
  by (auto simp: cnt_freq_def split: option.splits dest: cnt_loop_error)

lemma cnt_freq_counts:
  assumes "fs f = Some data" "\<forall>c\<in>set data. c < 256"
  shows "\<exists>r. cnt_freq fs f = Inr r \<and> length r = 256 \<and> (\<forall>i<256. r ! i = int (count_list data i))"
proof -
  from assms(2) have "\<forall>c\<in>set data. c < length (replicate 256 (0::int))" by simp
  from cnt_loop_counts[OF this] show ?thesis using assms(1) by (auto simp: cnt_freq_def)
qed

lemma cnt_freq_Inr:
  assumes "cnt_freq fs f = Inr fr"
  shows "\<exists>data. fs f = Some data \<and> (\<forall>c\<in>set data. c < 256) \<and> length fr = 256 \<and>
     (\<forall>i<256. fr ! i = int (count_list data i))"
proof -
  from assms obtain data where d: "fs f = Some data" "cnt_loop (replicate 256 0) data = Inr fr"
    by (auto simp: cnt_freq_def split: option.splits)
  from cnt_loop_range[OF d(2)] have r: "\<forall>c\<in>set data. c < 256" by simp
  from cnt_freq_counts[of fs f data, OF d(1) r] assms d(1) r show ?thesis by auto
qed

lemma huffman_encode_not_found:
  "fs f = None \<Longrightarrow> huffman_encode fs f out = Some (fs, Some FileNotFoundError)"
  by (simp add: huffman_encode_def cnt_freq_def)


text \<open>
  Claim C9, as amended. \<open>cnt_freq\<close> raises \<^verbatim>\<open>FileNotFoundError\<close> if and only if the
  named input does not exist; the test is the first thing it does, and \<open>huffman_encode\<close>
  then ends with that exception and the file system as it was, no output produced. On
  every existing input in which every character has a code point below 256, the empty
  input among them, it returns a list of 256 entries whose entry at index \<open>i\<close> is the
  number of occurrences of the character with code point \<open>i\<close>.
\<close>

theorem cnt_freq_spec:
  "(cnt_freq fs f = Inl FileNotFoundError \<longleftrightarrow> fs f = None) \<and>
   (fs f = None \<longrightarrow> huffman_encode fs f out = Some (fs, Some FileNotFoundError)) \<and>
   (\<forall>data. fs f = Some data \<and> (\<forall>c\<in>set data. c < 256) \<longrightarrow>
      (\<exists>vs. cnt_freq fs f = Inr vs \<and> length vs = 256 \<and>
            (\<forall>i<256. vs ! i = int (count_list data i))))"
  using cnt_freq_not_found [of fs f] huffman_encode_not_found [of fs f out]
    cnt_freq_counts [of fs f]
  by blast

theorem cnt_freq_spec_witness:
  "cnt_freq Map.empty ''in'' = Inl FileNotFoundError \<and>
   huffman_encode Map.empty ''in'' ''out'' = Some (Map.empty, Some FileNotFoundError) \<and>
   (\<exists>vs. cnt_freq [''in'' \<mapsto> [97, 97, 98]] ''in'' = Inr vs \<and> length vs = 256 \<and>
         vs ! 97 = 2 \<and> vs ! 98 = 1 \<and> vs ! 99 = 0)"
proof -
  have "\<exists>vs. cnt_freq [''in'' \<mapsto> [97, 97, 98]] ''in'' = Inr vs \<and> length vs = 256 \<and>
      (\<forall>i<256. vs ! i = int (count_list [97, 97, 98] i))"
    using cnt_freq_spec [of "[''in'' \<mapsto> [97, 97, 98]]" "''in''" "''out''"] by simp
  then obtain vs where vs: "cnt_freq [''in'' \<mapsto> [97, 97, 98]] ''in'' = Inr vs" "length vs = 256"
    "\<forall>i<256. vs ! i = int (count_list [97, 97, 98] i)" by blast
  from vs(3) have "vs ! 97 = 2" "vs ! 98 = 1" "vs ! 99 = 0" by simp_all
  with vs(1,2) cnt_freq_spec [of Map.empty "''in''" "''out''"] show ?thesis by simp
qed

text \<open>
  As stated for every existing input, the claim fails: the text of a file is a Python
  string, the euro sign has code point 8364, and \<^verbatim>\<open>values[8364]\<close> is out of range
  in a list of 256 entries.
\<close>

theorem cnt_freq_wide_char_counterexample:
  "cnt_freq [''in'' \<mapsto> [8364]] ''in'' = Inl IndexError"
  by (simp add: cnt_freq_def py_get_def py_index_def)

section \<open>Empty input\<close>

text \<open>
  Claim C8. On an empty input all 256 counts are zero, and \<open>huffman_encode\<close> creates the
  output file with nothing in it: no header line and no payload.
\<close>

theorem huffman_encode_empty_input:
  assumes "fs in_file = Some []"
  shows "cnt_freq fs in_file = Inr (replicate 256 0) \<and>
         huffman_encode fs in_file out_file = Some (fs(out_file \<mapsto> []), None)"
  using assms
  by (simp add: huffman_encode_def cnt_freq_def create_huff_tree_def sum_list_replicate)

theorem huffman_encode_empty_input_witness:
  "[''in'' \<mapsto> []] ''in'' = Some [] \<and>
   cnt_freq [''in'' \<mapsto> []] ''in'' = Inr (replicate 256 0) \<and>
   huffman_encode [''in'' \<mapsto> []] ''in'' ''out'' = Some ([''in'' \<mapsto> [], ''out'' \<mapsto> []], None)"
  using huffman_encode_empty_input [of "[''in'' \<mapsto> []]" "''in''" "''out''"] by simp

section \<open>The header\<close>

lemma upt_0_Suc: "[0..<Suc n] = 0 # map Suc [0..<n]"
  by (simp add: upt_conv_Cons map_Suc_upt del: upt_Suc)

lemma entries_from_eq:
  "entries_from k freqs = [(k + int i, freqs ! i). i \<leftarrow> [0..<length freqs], freqs ! i \<noteq> 0]"
proof (induction freqs arbitrary: k)
  case Nil
  then show ?case by simp
next
  case (Cons f freqs)
  have "entries_from (k + 1) freqs =
      [(k + 1 + int i, freqs ! i). i \<leftarrow> [0..<length freqs], freqs ! i \<noteq> 0]"
    by (rule Cons.IH)
  then show ?case
    by (simp add: upt_0_Suc comp_def algebra_simps del: upt_Suc cong: if_cong)
qed

lemma nonzero_entries_eq: "nonzero_entries freqs = entries_from 0 freqs"
  by (simp add: nonzero_entries_def entries_from_eq cong: if_cong)

lemma header_loop_eq:
  "header_loop header cnt freqs =
   header @ concat (map (\<lambda>(i, f). py_str i @ '' '' @ py_str f @ '' '') (entries_from cnt freqs))"
  by (induction freqs arbitrary: header cnt) auto

lemma butlast_join:
  "butlast (concat (map (\<lambda>p. p @ '' '') ps)) = join_space ps"
proof (induction ps rule: join_space.induct)
  case (3 p q ps)
  have "concat (map (\<lambda>p. p @ '' '') (q # ps)) \<noteq> []" by simp
  then have "butlast (p @ '' '' @ concat (map (\<lambda>p. p @ '' '') (q # ps)))
    = p @ '' '' @ butlast (concat (map (\<lambda>p. p @ '' '') (q # ps)))"
    by (simp add: butlast_append)
  with 3 show ?case by simp
qed simp_all

lemma create_header_serialize: "create_header freqs = serialize_spec freqs"
proof -
  let ?ps = "map (\<lambda>(i, f). py_str i @ '' '' @ py_str f) (entries_from 0 freqs)"
  have "header_loop [] 0 freqs = concat (map (\<lambda>p. p @ '' '') ?ps)"
    by (simp add: header_loop_eq comp_def case_prod_unfold)
  then have "create_header freqs = butlast (concat (map (\<lambda>p. p @ '' '') ?ps))"
    by (simp add: create_header_def Let_def butlast_conv_take)
  then show ?thesis by (simp only: butlast_join serialize_spec_def nonzero_entries_eq)
qed


text \<open>
  Claim C5. For every frequency table \<open>create_header\<close> returns the pairs
  \<^verbatim>\<open><symbol> <frequency>\<close> of exactly the symbols with a nonzero frequency, in ascending
  order of the symbol ids, joined by single spaces, with no separator at the end. For
  the table of the text \<^verbatim>\<open>aaabbbbcc\<close> (3 at 97, 4 at 98, 2 at 99) it returns
  \<^verbatim>\<open>97 3 98 4 99 2\<close>.
\<close>

theorem create_header_spec:
  "create_header freqs = serialize_spec freqs \<and>
   create_header (replicate 97 0 @ [3, 4, 2] @ replicate 156 0) = ''97 3 98 4 99 2''"
proof -
  have "create_header (replicate 97 0 @ [3, 4, 2] @ replicate 156 0) = ''97 3 98 4 99 2''"
    by code_simp
  then show ?thesis using create_header_serialize [of freqs] by simp
qed

section \<open>Trees and forests\<close>

lemma leaves_nonempty: "t \<noteq> None \<Longrightarrow> leaves t \<noteq> []"
  by (induction t rule: leaves.induct) auto

lemma tree_inv_unfold:
  "tree_inv (HuffmanNode c f l r) \<longleftrightarrow>
     node_inv (HuffmanNode c f l r) \<and>
     (\<forall>a. l = Some a \<longrightarrow> tree_inv a) \<and> (\<forall>b. r = Some b \<longrightarrow> tree_inv b)"
  by (cases l; cases r) (auto simp: tree_inv_def)

lemma tree_inv_leaf: "tree_inv (HuffmanNode c f None None)"
  by (simp add: tree_inv_def node_inv_def is_leaf_def)

lemma tree_inv_freq: "tree_inv t \<Longrightarrow> freq t = sum_list (map snd (leaves (Some t)))"
  by (cases t) (simp add: tree_inv_def node_inv_def)

lemma tree_inv_char: "tree_inv t \<Longrightarrow> char_ascii t = Min (set (map fst (leaves (Some t))))"
  by (cases t) (auto simp: tree_inv_def node_inv_def is_leaf_def)

lemma tree_inv_char_in: "tree_inv t \<Longrightarrow> char_ascii t \<in> fst ` set (leaves (Some t))"
proof -
  assume "tree_inv t"
  then have "char_ascii t = Min (fst ` set (leaves (Some t)))" by (simp add: tree_inv_char)
  moreover have "fst ` set (leaves (Some t)) \<noteq> {}" using leaves_nonempty[of "Some t"] by simp
  ultimately show ?thesis using Min_in[of "fst ` set (leaves (Some t))"] by simp
qed

lemma combine_cases:
  "combine a b = HuffmanNode (min (char_ascii a) (char_ascii b)) (freq a + freq b) (Some a) (Some b) \<or>
   combine a b = HuffmanNode (min (char_ascii a) (char_ascii b)) (freq a + freq b) (Some b) (Some a)"
  by (auto simp: combine_def)

lemma leaves_combine:
  "leaves (Some (combine a b)) = leaves (Some a) @ leaves (Some b) \<or>
   leaves (Some (combine a b)) = leaves (Some b) @ leaves (Some a)"
  using combine_cases[of a b] by auto

lemma mset_leaves_combine:
  "mset (leaves (Some (combine a b))) = mset (leaves (Some a)) + mset (leaves (Some b))"
  using leaves_combine[of a b] by auto

lemma tree_inv_combine:
  assumes "tree_inv a" "tree_inv b"
  shows "tree_inv (combine a b)"
proof -
  let ?A = "fst ` set (leaves (Some a))" and ?B = "fst ` set (leaves (Some b))"
  have ne: "?A \<noteq> {}" "?B \<noteq> {}"
    using leaves_nonempty[of "Some a"] leaves_nonempty[of "Some b"] by simp_all
  have "Min (?A \<union> ?B) = min (Min ?A) (Min ?B)"
    using ne by (simp add: Min_Un)
  then have m: "min (char_ascii a) (char_ascii b) = Min (?A \<union> ?B)"
    using assms by (simp add: tree_inv_char)
  have f: "freq a + freq b = sum_list (map snd (leaves (Some a))) + sum_list (map snd (leaves (Some b)))"
    using assms by (simp add: tree_inv_freq)
  from combine_cases[of a b] show ?thesis
  proof
    assume c: "combine a b = HuffmanNode (min (char_ascii a) (char_ascii b)) (freq a + freq b) (Some a) (Some b)"
    show ?thesis unfolding c tree_inv_unfold
      using assms m f by (simp add: node_inv_def is_leaf_def image_Un)
  next
    assume c: "combine a b = HuffmanNode (min (char_ascii a) (char_ascii b)) (freq a + freq b) (Some b) (Some a)"
    show ?thesis unfolding c tree_inv_unfold
      using assms m f by (simp add: node_inv_def is_leaf_def image_Un Un_commute)
  qed
qed

lemma mset_forest_leaves:
  "mset (forest_leaves ts) = (\<Sum>t\<in>#mset ts. mset (leaves (Some t)))"
  by (induction ts) (simp_all add: forest_leaves_def)

lemma forest_inv_perm:
  assumes "mset ts = mset ts'"
  shows "forest_inv ts \<longleftrightarrow> forest_inv ts'"
proof -
  from assms have "set ts = set ts'" by (rule mset_eq_setD)
  moreover have "mset (forest_leaves ts) = mset (forest_leaves ts')"
    using assms by (simp add: mset_forest_leaves)
  then have "mset (map fst (forest_leaves ts)) = mset (map fst (forest_leaves ts'))"
    by simp
  then have "distinct (map fst (forest_leaves ts)) \<longleftrightarrow> distinct (map fst (forest_leaves ts'))"
    by (rule mset_eq_imp_distinct_iff)
  ultimately show ?thesis by (simp add: forest_inv_def)
qed

lemma forest_inv_keys:
  "forest_inv ts \<Longrightarrow> distinct (map node_key ts)"
proof (induction ts)
  case Nil
  then show ?case by simp
next
  case (Cons t ts)
  from Cons.prems have inv: "tree_inv t" "\<forall>u\<in>set ts. tree_inv u"
    and d: "distinct (map fst (leaves (Some t)) @ map fst (forest_leaves ts))"
    by (simp_all add: forest_inv_def forest_leaves_def)
  from d inv(2) have "forest_inv ts" by (simp add: forest_inv_def)
  then have IH: "distinct (map node_key ts)" by (rule Cons.IH)
  have "node_key t \<noteq> node_key u" if u: "u \<in> set ts" for u
  proof
    assume eq: "node_key t = node_key u"
    then have "char_ascii t = char_ascii u" by (simp add: node_key_def)
    moreover have "char_ascii t \<in> fst ` set (leaves (Some t))"
      using inv(1) by (rule tree_inv_char_in)
    moreover have "char_ascii u \<in> fst ` set (leaves (Some u))"
      using inv(2) u by (simp add: tree_inv_char_in)
    then have "char_ascii u \<in> fst ` set (forest_leaves ts)"
      using u by (auto simp: forest_leaves_def)
    ultimately show False using d by auto
  qed
  with IH show ?case by auto
qed

lemma forest_inv_step:
  assumes "forest_inv (a # b # rest)"
  shows "forest_inv (rest @ [combine a b])"
    and "mset (forest_leaves (rest @ [combine a b])) = mset (forest_leaves (a # b # rest))"
proof -
  show m: "mset (forest_leaves (rest @ [combine a b])) = mset (forest_leaves (a # b # rest))"
    by (simp add: mset_forest_leaves mset_leaves_combine)
  then have "mset (map fst (forest_leaves (rest @ [combine a b]))) = mset (map fst (forest_leaves (a # b # rest)))"
    by simp
  then have "distinct (map fst (forest_leaves (rest @ [combine a b]))) \<longleftrightarrow>
      distinct (map fst (forest_leaves (a # b # rest)))"
    by (rule mset_eq_imp_distinct_iff)
  moreover have "tree_inv (combine a b)"
    using assms by (simp add: forest_inv_def tree_inv_combine)
  ultimately show "forest_inv (rest @ [combine a b])"
    using assms by (simp add: forest_inv_def)
qed

section \<open>The lowest-order node\<close>

lemma least_in_unique:
  assumes "least_in a S" "least_in b S"
  shows "a = b"
proof (rule ccontr)
  assume "a \<noteq> b"
  with assms have "comes_before a b" "comes_before b a"
    by (auto simp: least_in_def)
  then show False by (simp add: comes_before_asym)
qed

lemma least_in_insert:
  assumes "least_in l S" "comes_before m d" "l = m \<or> comes_before l m"
  shows "least_in l (insert d S)"
proof -
  have "comes_before l d" using assms(2,3) comes_before_trans by blast
  with assms(1) show ?thesis by (simp add: least_in_def)
qed

lemma lowest_least:
  "distinct (map node_key (m # ns)) \<Longrightarrow> least_in (lowest m ns) (set (m # ns))"
proof (induction ns arbitrary: m)
  case Nil
  then show ?case by (simp add: least_in_def)
next
  case (Cons n ns)
  from Cons.prems have neq: "node_key n \<noteq> node_key m" by auto
  show ?case
  proof (cases "comes_before n m")
    case True
    from Cons.prems have "distinct (map node_key (n # ns))" by auto
    from Cons.IH[OF this] have l: "least_in (lowest n ns) (set (n # ns))" .
    then have "lowest n ns = n \<or> comes_before (lowest n ns) n"
      by (auto simp: least_in_def)
    from least_in_insert[OF l True this]
    have "least_in (lowest n ns) (insert m (set (n # ns)))" .
    moreover have "insert m (set (n # ns)) = set (m # n # ns)" by auto
    ultimately show ?thesis using True by simp
  next
    case False
    with neq have mn: "comes_before m n" using comes_before_total[of n m] by blast
    from Cons.prems have "distinct (map node_key (m # ns))" by auto
    from Cons.IH[OF this] have l: "least_in (lowest m ns) (set (m # ns))" .
    then have "lowest m ns = m \<or> comes_before (lowest m ns) m"
      by (auto simp: least_in_def)
    from least_in_insert[OF l mn this]
    have "least_in (lowest m ns) (insert n (set (m # ns)))" .
    moreover have "insert n (set (m # ns)) = set (m # n # ns)" by auto
    ultimately show ?thesis using False by simp
  qed
qed

lemma sorted_hd_least:
  "sorted_wrt comes_before (a # ys) \<Longrightarrow> least_in a (set (a # ys))"
  by (auto simp: least_in_def)

lemma lowest_hd_tl:
  assumes "xs \<noteq> []" "distinct (map node_key xs)" "mset xs = mset (a # ys)"
    "sorted_wrt comes_before (a # ys)"
  shows "lowest (hd xs) (tl xs) = a"
proof -
  from assms(1) have x: "hd xs # tl xs = xs" by simp
  with assms(2) have "least_in (lowest (hd xs) (tl xs)) (set xs)"
    using lowest_least[of "hd xs" "tl xs"] by simp
  moreover have "set xs = set (a # ys)" using assms(3) by (rule mset_eq_setD)
  ultimately have "least_in (lowest (hd xs) (tl xs)) (set (a # ys))" by simp
  then show ?thesis using sorted_hd_least[OF assms(4)] by (rule least_in_unique)
qed

lemma distinct_map_remove1: "distinct (map f xs) \<Longrightarrow> distinct (map f (remove1 a xs))"
proof (induction xs)
  case Nil
  then show ?case by simp
next
  case (Cons x xs)
  have "set (remove1 a xs) \<subseteq> set xs" by (rule set_remove1_subset)
  with Cons show ?case by auto
qed

lemma spec_build_step:
  assumes xs: "mset xs = mset (a # b # rest)" and d: "distinct (map node_key xs)"
    and s: "sorted_wrt comes_before (a # b # rest)"
  shows "\<exists>xs'. spec_build xs = spec_build (combine a b # xs') \<and> mset xs' = mset rest"
proof -
  from xs have "length xs = length (a # b # rest)" by (rule mset_eq_length)
  then obtain n1 n2 ns where x: "xs = n1 # n2 # ns"
    by (cases xs; cases "tl xs") auto
  have a: "lowest n1 (n2 # ns) = a"
    using lowest_hd_tl[of xs a "b # rest"] xs d s x by simp
  let ?r = "remove1 a xs"
  have mr: "mset ?r = mset (b # rest)" using xs by simp
  then have "length ?r = length (b # rest)" by (rule mset_eq_length)
  then have rne: "?r \<noteq> []" by auto
  have dr: "distinct (map node_key ?r)"
    using d by (rule distinct_map_remove1)
  have s': "sorted_wrt comes_before (b # rest)" using s by simp
  have b: "lowest (hd ?r) (tl ?r) = b"
    using lowest_hd_tl[OF rne dr mr s'] .
  have "mset (remove1 b ?r) = mset rest" using mr by simp
  moreover have "spec_build xs = spec_build (combine a b # remove1 b ?r)"
  proof -
    have b': "lowest (hd (remove1 a (n1 # n2 # ns))) (tl (remove1 a (n1 # n2 # ns))) = b"
      using b unfolding x .
    show ?thesis unfolding x by (simp only: spec_build.simps(3) Let_def a b')
  qed
  ultimately show ?thesis by blast
qed

section \<open>The construction loop\<close>

lemma huff_helper_total:
  assumes "distinct (map node_key xs)"
  shows "\<exists>ys. huff_helper xs = Some ys \<and> mset ys = mset xs \<and> sorted_wrt comes_before ys"
proof -
  from assms huff_helper_returns_iff[of xs] obtain ys where "huff_helper xs = Some ys" by blast
  with huff_helper_sorted[of xs ys] show ?thesis by blast
qed

lemma huff_while_build:
  assumes "forest_inv ys" "sorted_wrt comes_before ys" "mset xs = mset ys" "ys \<noteq> []"
  shows "\<exists>r. huff_while ys = Some [r] \<and> spec_build xs = Some r \<and> tree_inv r \<and>
             mset (leaves (Some r)) = mset (forest_leaves ys)"
  using assms
proof (induction "length ys" arbitrary: xs ys rule: less_induct)
  case less
  show ?case
  proof (cases ys)
    case Nil
    with less.prems show ?thesis by simp
  next
    case (Cons a ys1)
    show ?thesis
    proof (cases ys1)
      case Nil
      with Cons have ys: "ys = [a]" by simp
      then have "huff_while ys = Some [a]" by (subst huff_while.simps) simp
      moreover from less.prems(3) ys have "xs = [a]" by simp
      moreover from less.prems(1) ys have "tree_inv a" by (simp add: forest_inv_def)
      ultimately show ?thesis using ys by (simp add: forest_leaves_def)
    next
      case (Cons b rest)
      with \<open>ys = a # ys1\<close> have ys: "ys = a # b # rest" by simp
      let ?c = "combine a b"
      let ?l = "sort_key freq (drop 2 (ys @ [combine (ys ! 0) (ys ! 1)]))"
      have l: "mset ?l = mset (rest @ [?c])" by (simp add: ys)
      from less.prems(1) have fi: "forest_inv (rest @ [?c])"
        and fl: "mset (forest_leaves (rest @ [?c])) = mset (forest_leaves ys)"
        unfolding ys by (rule forest_inv_step)+
      from fi l have fil: "forest_inv ?l" using forest_inv_perm by blast
      then have "distinct (map node_key ?l)" by (rule forest_inv_keys)
      from huff_helper_total[OF this] obtain zs where
        zs: "huff_helper ?l = Some zs" "mset zs = mset ?l" "sorted_wrt comes_before zs"
        by blast
      from fil zs(2) have fiz: "forest_inv zs" using forest_inv_perm by blast
      from zs(2) l have lz: "length zs = Suc (length rest)"
        by (metis length_append_singleton mset_eq_length)
      then have len: "length zs < length ys" and zne: "zs \<noteq> []" by (auto simp: ys)
      have d: "distinct (map node_key xs)"
        using less.prems(1,3) forest_inv_perm forest_inv_keys by blast
      from spec_build_step[OF _ d] less.prems(2,3) obtain xs' where
        xs': "spec_build xs = spec_build (?c # xs')" "mset xs' = mset rest"
        unfolding ys by blast
      have "mset (?c # xs') = mset zs" using xs'(2) zs(2) l by simp
      from less.hyps[OF len fiz zs(3) this zne] obtain r where
        r: "huff_while zs = Some [r]" "spec_build (?c # xs') = Some r" "tree_inv r"
          "mset (leaves (Some r)) = mset (forest_leaves zs)"
        by blast
      have "huff_while ys = Some [r]"
        using zs(1) r(1) by (subst huff_while.simps) (simp add: ys)
      moreover have "mset (forest_leaves zs) = mset (forest_leaves ys)"
        using zs(2) l fl by (simp add: mset_forest_leaves)
      ultimately show ?thesis using r xs'(1) by simp
    qed
  qed
qed

lemma nonzero_entries_filter:
  "nonzero_entries freqs = map (\<lambda>i. (int i, freqs ! i)) (filter (\<lambda>i. freqs ! i \<noteq> 0) [0..<length freqs])"
proof -
  have "concat (map (\<lambda>i. if P i then [g i] else []) is) = map g (filter P is)"
    for P :: "nat \<Rightarrow> bool" and g :: "nat \<Rightarrow> int \<times> int" and "is"
    by (induction "is") simp_all
  then show ?thesis by (simp add: nonzero_entries_def)
qed

lemma distinct_nonzero_entries: "distinct (map fst (nonzero_entries freqs))"
proof -
  have "map fst (nonzero_entries freqs) = map int (filter (\<lambda>i. freqs ! i \<noteq> 0) [0..<length freqs])"
    by (simp add: nonzero_entries_filter comp_def)
  then show ?thesis by (simp add: distinct_map)
qed

lemma set_nonzero_entries:
  "set (nonzero_entries freqs) = {(int i, freqs ! i) | i. i < length freqs \<and> freqs ! i \<noteq> 0}"
  by (auto simp: nonzero_entries_filter)

lemma sum_nonzero_entries: "sum_list (map snd (nonzero_entries freqs)) = sum_list freqs"
proof -
  have "sum_list (map snd (entries_from k freqs)) = sum_list freqs" for k
    by (induction freqs arbitrary: k) simp_all
  then show ?thesis by (simp add: nonzero_entries_eq)
qed

lemma leaves_loop_eq:
  "leaves_loop huf_lis i freqs =
   huf_lis @ map (\<lambda>(c, f). HuffmanNode c f None None) (entries_from i freqs)"
  by (induction freqs arbitrary: huf_lis i) simp_all

lemma leaves_loop_spec: "leaves_loop [] 0 freqs = spec_leaves freqs"
  by (simp add: leaves_loop_eq spec_leaves_def nonzero_entries_eq)

lemma forest_leaves_spec: "forest_leaves (spec_leaves freqs) = nonzero_entries freqs"
proof -
  have "concat (map (\<lambda>t. leaves (Some t)) (map (\<lambda>(c, f). HuffmanNode c f None None) es)) = es" for es
    by (induction es) auto
  then show ?thesis by (simp add: forest_leaves_def spec_leaves_def)
qed

lemma forest_inv_spec_leaves: "forest_inv (spec_leaves freqs)"
proof -
  have "\<forall>t\<in>set (spec_leaves freqs). tree_inv t"
    by (auto simp: spec_leaves_def tree_inv_leaf)
  then show ?thesis
    by (simp add: forest_inv_def forest_leaves_spec distinct_nonzero_entries)
qed

lemma spec_leaves_nonempty: "sum_list freqs \<noteq> 0 \<Longrightarrow> spec_leaves freqs \<noteq> []"
proof
  assume s: "sum_list freqs \<noteq> 0" and "spec_leaves freqs = []"
  then have "nonzero_entries freqs = []" by (simp add: spec_leaves_def)
  then have "sum_list (map snd (nonzero_entries freqs)) = 0" by simp
  with s show False by (simp add: sum_nonzero_entries)
qed

lemma create_huff_tree_build:
  assumes "sum_list freqs \<noteq> 0"
  shows "\<exists>r. create_huff_tree freqs = Some (Inr (Some r)) \<and>
             spec_build (spec_leaves freqs) = Some r \<and> tree_inv r \<and>
             mset (leaves (Some r)) = mset (nonzero_entries freqs)"
proof -
  let ?l = "sort_key freq (spec_leaves freqs)"
  have ml: "mset ?l = mset (spec_leaves freqs)" by simp
  with forest_inv_spec_leaves[of freqs] have "forest_inv ?l" using forest_inv_perm by blast
  then have "distinct (map node_key ?l)" by (rule forest_inv_keys)
  from huff_helper_total[OF this] obtain zs where
    zs: "huff_helper ?l = Some zs" "mset zs = mset ?l" "sorted_wrt comes_before zs"
    by blast
  from zs(2) ml have mz: "mset (spec_leaves freqs) = mset zs" by simp
  with forest_inv_spec_leaves[of freqs] have fiz: "forest_inv zs" using forest_inv_perm by blast
  from spec_leaves_nonempty[OF assms] mz have "zs \<noteq> []" by auto
  from huff_while_build[OF fiz zs(3) mz this] obtain r where
    r: "huff_while zs = Some [r]" "spec_build (spec_leaves freqs) = Some r" "tree_inv r"
      "mset (leaves (Some r)) = mset (forest_leaves zs)"
    by blast
  have "mset (forest_leaves zs) = mset (forest_leaves (spec_leaves freqs))"
    using mz by (simp add: mset_forest_leaves)
  then have "mset (forest_leaves zs) = mset (nonzero_entries freqs)"
    by (simp only: forest_leaves_spec)
  moreover have "create_huff_tree freqs = Some (Inr (Some r))"
    using assms zs(1) r(1)
    by (simp add: create_huff_tree_def leaves_loop_spec py_get_def py_index_def)
  ultimately show ?thesis using r by simp
qed

lemma sum_list_nonneg_zero:
  assumes "\<forall>f\<in>set freqs. (0::int) \<le> f"
  shows "sum_list freqs = 0 \<longleftrightarrow> (\<forall>f\<in>set freqs. f = 0)"
  using assms by (induction freqs) (auto simp: add_nonneg_eq_0_iff sum_list_nonneg)

text \<open>
  Claim C1. For every frequency table of non-negative counts (of 256 entries or of any
  other length): if all counts are zero, \<open>create_huff_tree\<close> returns \<^verbatim>\<open>None\<close>; otherwise
  it returns the node that the specification's construction \<open>spec_build\<close> yields from
  one leaf per symbol with a nonzero count, by removing the two lowest-order nodes under
  \<open>comes_before\<close>, combining them and putting the result back until one node remains.
  For the counts 3 at 97 (a), 4 at 98 (b) and 2 at 99 (c), combining c and a gives a node
  of weight 5 and id 97, combining b with that node gives a node of weight 9 and id 97
  whose left child is b, and that node is the root returned.
\<close>

theorem create_huff_tree_spec:
  assumes "\<forall>f\<in>set freqs. 0 \<le> f"
  shows "((\<forall>f\<in>set freqs. f = 0) \<longrightarrow> create_huff_tree freqs = Some (Inr None)) \<and>
     ((\<exists>f\<in>set freqs. f \<noteq> 0) \<longrightarrow>
        (\<exists>root. spec_build (spec_leaves freqs) = Some root \<and>
                create_huff_tree freqs = Some (Inr (Some root)))) \<and>
     combine (HuffmanNode 99 2 None None) (HuffmanNode 97 3 None None) =
       HuffmanNode 97 5 (Some (HuffmanNode 99 2 None None)) (Some (HuffmanNode 97 3 None None)) \<and>
     combine (HuffmanNode 98 4 None None)
         (HuffmanNode 97 5 (Some (HuffmanNode 99 2 None None)) (Some (HuffmanNode 97 3 None None))) =
       HuffmanNode 97 9 (Some (HuffmanNode 98 4 None None))
         (Some (HuffmanNode 97 5 (Some (HuffmanNode 99 2 None None)) (Some (HuffmanNode 97 3 None None)))) \<and>
     create_huff_tree (replicate 97 0 @ [3, 4, 2] @ replicate 156 0) =
       Some (Inr (Some (HuffmanNode 97 9 (Some (HuffmanNode 98 4 None None))
         (Some (HuffmanNode 97 5 (Some (HuffmanNode 99 2 None None)) (Some (HuffmanNode 97 3 None None)))))))"
proof -
  have zero: "(\<forall>f\<in>set freqs. f = 0) \<longrightarrow> create_huff_tree freqs = Some (Inr None)"
    using assms by (simp add: create_huff_tree_def sum_list_nonneg_zero)
  have nonzero: "(\<exists>f\<in>set freqs. f \<noteq> 0) \<longrightarrow>
        (\<exists>root. spec_build (spec_leaves freqs) = Some root \<and>
                create_huff_tree freqs = Some (Inr (Some root)))"
  proof
    assume "\<exists>f\<in>set freqs. f \<noteq> 0"
    with assms have "sum_list freqs \<noteq> 0" by (simp add: sum_list_nonneg_zero)
    from create_huff_tree_build[OF this]
    show "\<exists>root. spec_build (spec_leaves freqs) = Some root \<and>
                create_huff_tree freqs = Some (Inr (Some root))" by blast
  qed
  have c1: "combine (HuffmanNode 99 2 None None) (HuffmanNode 97 3 None None) =
       HuffmanNode 97 5 (Some (HuffmanNode 99 2 None None)) (Some (HuffmanNode 97 3 None None))"
    by (simp add: combine_def)
  have c2: "combine (HuffmanNode 98 4 None None)
         (HuffmanNode 97 5 (Some (HuffmanNode 99 2 None None)) (Some (HuffmanNode 97 3 None None))) =
       HuffmanNode 97 9 (Some (HuffmanNode 98 4 None None))
         (Some (HuffmanNode 97 5 (Some (HuffmanNode 99 2 None None)) (Some (HuffmanNode 97 3 None None))))"
    by (simp add: combine_def)
  have ex: "create_huff_tree (replicate 97 0 @ [3, 4, 2] @ replicate 156 0) =
       Some (Inr (Some (HuffmanNode 97 9 (Some (HuffmanNode 98 4 None None))
         (Some (HuffmanNode 97 5 (Some (HuffmanNode 99 2 None None)) (Some (HuffmanNode 97 3 None None)))))))"
    by code_simp
  from zero nonzero c1 c2 ex show ?thesis by blast
qed

theorem create_huff_tree_spec_witness:
  "spec_build (spec_leaves (replicate 97 0 @ [3, 4, 2] @ replicate 156 0)) =
     Some (HuffmanNode 97 9 (Some (HuffmanNode 98 4 None None))
         (Some (HuffmanNode 97 5 (Some (HuffmanNode 99 2 None None)) (Some (HuffmanNode 97 3 None None))))) \<and>
   create_huff_tree (replicate 256 0) = Some (Inr None)"
  using create_huff_tree_spec [of "replicate 97 0 @ [3, 4, 2] @ replicate 156 0"]
    create_huff_tree_spec [of "replicate 256 0"]
  by auto


text \<open>
  Claim C4. For every frequency table of non-negative counts with at least one nonzero
  entry, the root that \<open>create_huff_tree\<close> returns has as weight the sum of all entries
  of the table, and the tree satisfies \<open>tree_inv\<close>: at every node the weight is the sum
  of the weights of the leaves below it, and at every node that is not a leaf the symbol
  id is the least symbol id of the leaves below it. \<open>combine\<close> preserves \<open>tree_inv\<close>.
\<close>

theorem tree_weight_invariant:
  "((\<forall>f\<in>set freqs. 0 \<le> f) \<and> (\<exists>f\<in>set freqs. f \<noteq> 0) \<longrightarrow>
      (\<exists>root. create_huff_tree freqs = Some (Inr (Some root)) \<and>
              freq root = sum_list freqs \<and> tree_inv root)) \<and>
   (tree_inv x \<and> tree_inv y \<longrightarrow> tree_inv (combine x y))"
proof -
  have "\<exists>root. create_huff_tree freqs = Some (Inr (Some root)) \<and>
              freq root = sum_list freqs \<and> tree_inv root"
    if "\<forall>f\<in>set freqs. 0 \<le> f" "\<exists>f\<in>set freqs. f \<noteq> 0"
  proof -
    from that have "sum_list freqs \<noteq> 0" by (simp add: sum_list_nonneg_zero)
    from create_huff_tree_build[OF this] obtain r where
      r: "create_huff_tree freqs = Some (Inr (Some r))" "tree_inv r"
        "mset (leaves (Some r)) = mset (nonzero_entries freqs)" by blast
    from r(3) have "mset (map snd (leaves (Some r))) = mset (map snd (nonzero_entries freqs))"
      by simp
    then have "sum_list (map snd (leaves (Some r))) = sum_list (map snd (nonzero_entries freqs))"
      by (metis sum_mset_sum_list)
    with r(2) have "freq r = sum_list freqs"
      by (simp add: tree_inv_freq sum_nonzero_entries)
    with r(1,2) show ?thesis by blast
  qed
  then show ?thesis using tree_inv_combine by blast
qed

theorem tree_weight_invariant_witness:
  "create_huff_tree (replicate 97 0 @ [3, 4, 2] @ replicate 156 0) =
     Some (Inr (Some (HuffmanNode 97 9 (Some (HuffmanNode 98 4 None None))
         (Some (HuffmanNode 97 5 (Some (HuffmanNode 99 2 None None)) (Some (HuffmanNode 97 3 None None))))))) \<and>
   tree_inv (HuffmanNode 97 9 (Some (HuffmanNode 98 4 None None))
         (Some (HuffmanNode 97 5 (Some (HuffmanNode 99 2 None None)) (Some (HuffmanNode 97 3 None None))))) \<and>
   tree_inv (HuffmanNode 99 2 None None) \<and> tree_inv (HuffmanNode 97 3 None None) \<and>
   tree_inv (combine (HuffmanNode 99 2 None None) (HuffmanNode 97 3 None None))"
proof -
  have e: "create_huff_tree (replicate 97 0 @ [3, 4, 2] @ replicate 156 0) =
     Some (Inr (Some (HuffmanNode 97 9 (Some (HuffmanNode 98 4 None None))
         (Some (HuffmanNode 97 5 (Some (HuffmanNode 99 2 None None)) (Some (HuffmanNode 97 3 None None)))))))"
    by code_simp
  have l: "tree_inv (HuffmanNode 99 2 None None)" "tree_inv (HuffmanNode 97 3 None None)"
    by (simp_all add: tree_inv_def node_inv_def is_leaf_def)
  from e l tree_weight_invariant [of "replicate 97 0 @ [3, 4, 2] @ replicate 156 0"
      "HuffmanNode 99 2 None None" "HuffmanNode 97 3 None None"]
  show ?thesis by auto
qed

section \<open>The code table\<close>

text \<open>
  \<open>paths t\<close> lists, for every leaf of \<open>t\<close>, its symbol id and the digits on the way
  from the root to it; a leaf is not below another one, so no path of a leaf is a prefix
  of the path of another. \<open>create_code_helper\<close> writes each path at the index of its
  symbol id and leaves every other entry as it was.
\<close>

lemma paths_fst: "map fst (paths t) = map fst (leaves t)"
  by (induction t rule: paths.induct) (auto simp: comp_def case_prod_unfold)

lemma paths_prefix:
  "(c, p) \<in> set (paths t) \<Longrightarrow> (d, q) \<in> set (paths t) \<Longrightarrow> prefix p q \<Longrightarrow> c = d"
proof (induction t arbitrary: p q rule: paths.induct)
  case 1
  then show ?case by simp
next
  case (2 c0 f l r)
  show ?case
  proof (cases "l = None \<and> r = None")
    case True
    with 2(3,4) show ?thesis by simp
  next
    case False
    from 2(3) False consider
      (L) p' where "p = CHR ''0'' # p'" "(c, p') \<in> set (paths l)"
      | (R) p' where "p = CHR ''1'' # p'" "(c, p') \<in> set (paths r)"
      by auto
    then show ?thesis
    proof cases
      case L
      with 2(5) obtain q' where q: "q = CHR ''0'' # q'" "prefix p' q'"
        by (cases q) auto
      with 2(4) False have "(d, q') \<in> set (paths l)" by auto
      from 2(1)[OF False L(2) this q(2)] show ?thesis .
    next
      case R
      with 2(5) obtain q' where q: "q = CHR ''1'' # q'" "prefix p' q'"
        by (cases q) auto
      with 2(4) False have "(d, q') \<in> set (paths r)" by auto
      from 2(2)[OF False R(2) this q(2)] show ?thesis .
    qed
  qed
qed

lemma py_set_in_range:
  "0 \<le> c \<Longrightarrow> c < int (length xs) \<Longrightarrow> py_set xs c v = Inr (xs[nat c := v])"
  by (simp add: py_set_def py_index_def)

lemma create_code_helper_writes:
  assumes "t \<noteq> None" "\<And>n. t = Some n \<Longrightarrow> tree_inv n"
    "distinct (map fst (leaves t))"
    "\<forall>c\<in>fst ` set (leaves t). 0 \<le> c \<and> c < int (length pl)"
  shows "\<exists>pl'. create_code_helper t code pl = Inr pl' \<and> length pl' = length pl \<and>
     (\<forall>(c, p)\<in>set (paths t). pl' ! nat c = code @ p) \<and>
     (\<forall>i<length pl. int i \<notin> fst ` set (leaves t) \<longrightarrow> pl' ! i = pl ! i)"
  using assms
proof (induction t code pl rule: create_code_helper.induct)
  case (1 code pl)
  then show ?case by simp
next
  case (2 c f l r code pl)
  show ?case
  proof (cases "l = None \<and> r = None")
    case True
    from 2(6) True have c: "0 \<le> c" "c < int (length pl)" by simp_all
    then have "create_code_helper (Some (HuffmanNode c f l r)) code pl = Inr (pl[nat c := code])"
      using True by (simp add: py_set_in_range)
    moreover have "\<forall>i<length pl. int i \<noteq> c \<longrightarrow> pl[nat c := code] ! i = pl ! i"
      using c by auto
    moreover have "pl[nat c := code] ! nat c = code" using c by simp
    ultimately show ?thesis using True by simp
  next
    case False
    from 2(4) have ti: "tree_inv (HuffmanNode c f l r)" by simp
    with False obtain a b where lr: "l = Some a" "r = Some b"
      by (auto simp: tree_inv_unfold node_inv_def is_leaf_def)
    from ti lr have tia: "tree_inv a" and tib: "tree_inv b"
      by (simp_all add: tree_inv_unfold)
    from False have lv: "leaves (Some (HuffmanNode c f l r)) = leaves l @ leaves r" by simp
    from 2(5) lv have dl: "distinct (map fst (leaves l))" and dr: "distinct (map fst (leaves r))"
      and disj: "fst ` set (leaves l) \<inter> fst ` set (leaves r) = {}"
      by auto
    from 2(6) lv have rl: "\<forall>c\<in>fst ` set (leaves l). 0 \<le> c \<and> c < int (length pl)"
      and rr: "\<forall>c\<in>fst ` set (leaves r). 0 \<le> c \<and> c < int (length pl)"
      by auto
    have "\<exists>pl'. create_code_helper l (code @ ''0'') pl = Inr pl' \<and> length pl' = length pl \<and>
       (\<forall>(c, p)\<in>set (paths l). pl' ! nat c = (code @ ''0'') @ p) \<and>
       (\<forall>i<length pl. int i \<notin> fst ` set (leaves l) \<longrightarrow> pl' ! i = pl ! i)"
      using lr tia dl rl by (intro 2(1)[OF False]) simp_all
    then obtain pl1 where pl1: "create_code_helper l (code @ ''0'') pl = Inr pl1"
      "length pl1 = length pl"
      "\<forall>(c, p)\<in>set (paths l). pl1 ! nat c = (code @ ''0'') @ p"
      "\<forall>i<length pl. int i \<notin> fst ` set (leaves l) \<longrightarrow> pl1 ! i = pl ! i"
      by blast
    have "\<exists>pl'. create_code_helper r (code @ ''1'') pl1 = Inr pl' \<and> length pl' = length pl1 \<and>
       (\<forall>(c, p)\<in>set (paths r). pl' ! nat c = (code @ ''1'') @ p) \<and>
       (\<forall>i<length pl1. int i \<notin> fst ` set (leaves r) \<longrightarrow> pl' ! i = pl1 ! i)"
      using lr tib dr rr pl1(2) by (intro 2(2)[OF False pl1(1)]) simp_all
    then obtain pl2 where pl2: "create_code_helper r (code @ ''1'') pl1 = Inr pl2"
      "length pl2 = length pl1"
      "\<forall>(c, p)\<in>set (paths r). pl2 ! nat c = (code @ ''1'') @ p"
      "\<forall>i<length pl1. int i \<notin> fst ` set (leaves r) \<longrightarrow> pl2 ! i = pl1 ! i"
      by blast
    have res: "create_code_helper (Some (HuffmanNode c f l r)) code pl = Inr pl2"
      using lr pl1(1) pl2(1) by simp
    have written: "pl2 ! nat d = code @ p"
      if "(d, p) \<in> set (paths (Some (HuffmanNode c f l r)))" for d p
    proof -
      from that False consider
        (L) p' where "p = CHR ''0'' # p'" "(d, p') \<in> set (paths l)"
        | (R) p' where "p = CHR ''1'' # p'" "(d, p') \<in> set (paths r)"
        by auto
      then show ?thesis
      proof cases
        case L
        from L(2) have "d \<in> fst ` set (paths l)" by force
        then have dl': "d \<in> fst ` set (leaves l)"
          using paths_fst[of l] by (metis set_map)
        with rl have d: "0 \<le> d" "d < int (length pl)" by blast+
        from dl' disj have "d \<notin> fst ` set (leaves r)" by auto
        with d pl1(2) pl2(4) have "pl2 ! nat d = pl1 ! nat d" by simp
        also from pl1(3) L(2) have "\<dots> = (code @ ''0'') @ p'" by auto
        finally show ?thesis using L(1) by simp
      next
        case R
        with pl2(3) have "pl2 ! nat d = (code @ ''1'') @ p'" by auto
        then show ?thesis using R(1) by simp
      qed
    qed
    have kept: "pl2 ! i = pl ! i"
      if "i < length pl" "int i \<notin> fst ` set (leaves (Some (HuffmanNode c f l r)))" for i
    proof -
      from that(2) lv have "int i \<notin> fst ` set (leaves l)" "int i \<notin> fst ` set (leaves r)"
        by auto
      with that(1) pl1(2,4) pl2(4) show ?thesis by simp
    qed
    have len: "length pl2 = length pl" using pl1(2) pl2(2) by simp
    have w: "\<forall>(d, p)\<in>set (paths (Some (HuffmanNode c f l r))). pl2 ! nat d = code @ p"
      using written by blast
    have k: "\<forall>i<length pl. int i \<notin> fst ` set (leaves (Some (HuffmanNode c f l r))) \<longrightarrow>
        pl2 ! i = pl ! i"
      using kept by blast
    from res len w k show ?thesis by blast
  qed
qed

lemma fst_nonzero_entries:
  "c \<in> fst ` set (nonzero_entries freqs) \<longleftrightarrow> (\<exists>i<length freqs. c = int i \<and> freqs ! i \<noteq> 0)"
proof
  assume "c \<in> fst ` set (nonzero_entries freqs)"
  then obtain f where "(c, f) \<in> set (nonzero_entries freqs)" by force
  then show "\<exists>i<length freqs. c = int i \<and> freqs ! i \<noteq> 0"
    unfolding set_nonzero_entries by blast
next
  assume "\<exists>i<length freqs. c = int i \<and> freqs ! i \<noteq> 0"
  then obtain i where i: "i < length freqs" "c = int i" "freqs ! i \<noteq> 0" by blast
  then have "(c, freqs ! i) \<in> set (nonzero_entries freqs)"
    unfolding set_nonzero_entries by blast
  then show "c \<in> fst ` set (nonzero_entries freqs)" by force
qed

lemma create_code_built:
  assumes len: "length freqs = 256" and nz: "sum_list freqs \<noteq> 0"
  shows "\<exists>r codes. create_huff_tree freqs = Some (Inr (Some r)) \<and>
     create_code (Some r) = Inr codes \<and> length codes = 256 \<and>
     (\<forall>i<256. freqs ! i \<noteq> 0 \<longrightarrow> (int i, codes ! i) \<in> set (paths (Some r))) \<and>
     (\<forall>i<256. freqs ! i = 0 \<longrightarrow> codes ! i = [])"
proof -
  from create_huff_tree_build[OF nz] obtain r where
    r: "create_huff_tree freqs = Some (Inr (Some r))" "tree_inv r"
      "mset (leaves (Some r)) = mset (nonzero_entries freqs)" by blast
  from r(3) have sl: "set (leaves (Some r)) = set (nonzero_entries freqs)"
    by (rule mset_eq_setD)
  have ids: "c \<in> fst ` set (leaves (Some r)) \<longleftrightarrow> (\<exists>i<256. c = int i \<and> freqs ! i \<noteq> 0)" for c
    unfolding sl fst_nonzero_entries len ..
  from r(3) have "mset (map fst (leaves (Some r))) = mset (map fst (nonzero_entries freqs))"
    by simp
  then have d: "distinct (map fst (leaves (Some r)))"
    using distinct_nonzero_entries[of freqs] by (metis mset_eq_imp_distinct_iff)
  have rng: "\<forall>c\<in>fst ` set (leaves (Some r)). 0 \<le> c \<and> c < int (length (replicate 256 ([]::string)))"
  proof
    fix c assume "c \<in> fst ` set (leaves (Some r))"
    then obtain i where "i < 256" "c = int i" unfolding ids by blast
    then show "0 \<le> c \<and> c < int (length (replicate 256 ([]::string)))" by simp
  qed
  have t: "\<And>n. Some r = Some n \<Longrightarrow> tree_inv n" using r(2) by simp
  from create_code_helper_writes[of "Some r" "replicate 256 []" "[]", OF _ t d rng]
  obtain pl' where pl: "create_code_helper (Some r) [] (replicate 256 []) = Inr pl'"
     "length pl' = length (replicate 256 ([]::string))"
     "\<forall>(c, p)\<in>set (paths (Some r)). pl' ! nat c = [] @ p"
     "\<forall>i<length (replicate 256 ([]::string)).
        int i \<notin> fst ` set (leaves (Some r)) \<longrightarrow> pl' ! i = replicate 256 [] ! i"
    by blast
  have c: "create_code (Some r) = Inr pl'" using pl(1) by (simp add: create_code_def)
  have l: "length pl' = 256" using pl(2) by simp
  have a: "(int i, pl' ! i) \<in> set (paths (Some r))" if "i < 256" "freqs ! i \<noteq> 0" for i
  proof -
    from that have "int i \<in> fst ` set (leaves (Some r))" unfolding ids by blast
    then have "int i \<in> set (map fst (leaves (Some r)))" by simp
    then have "int i \<in> set (map fst (paths (Some r)))" by (simp only: paths_fst)
    then obtain p where p: "(int i, p) \<in> set (paths (Some r))" by force
    with pl(3) have "pl' ! nat (int i) = [] @ p" by blast
    with p show ?thesis by simp
  qed
  have b: "pl' ! i = []" if "i < 256" "freqs ! i = 0" for i
  proof -
    have "int i \<notin> fst ` set (leaves (Some r))"
    proof
      assume "int i \<in> fst ` set (leaves (Some r))"
      then obtain j where "j < 256" "int i = int j" "freqs ! j \<noteq> 0" unfolding ids by blast
      with that(2) show False by simp
    qed
    moreover have "i < length (replicate 256 ([]::string))" using that(1) by simp
    ultimately have "pl' ! i = replicate 256 [] ! i" using pl(4) by blast
    with that(1) show ?thesis by simp
  qed
  from r(1) c l a b show ?thesis by blast
qed

lemma nonzero_count:
  assumes "2 \<le> length (filter (\<lambda>f. f \<noteq> 0) freqs)"
  shows "\<exists>f\<in>set freqs. f \<noteq> (0::int)"
proof (rule ccontr)
  assume "\<not> (\<exists>f\<in>set freqs. f \<noteq> 0)"
  then have "filter (\<lambda>f. f \<noteq> 0) freqs = []" by (simp add: filter_empty_conv)
  with assms show False by simp
qed

text \<open>
  Claim C3. For every frequency table (256 counts, none negative) with at least two
  nonzero entries, \<open>create_huff_tree\<close> returns a tree, \<open>create_code\<close> returns a table
  of 256 code strings for it, and for any two distinct symbols with nonzero frequency the
  code string of the one is not a prefix of the code string of the other.
\<close>

theorem code_table_prefix_free:
  assumes "length freqs = 256" "\<forall>f\<in>set freqs. 0 \<le> f"
    "2 \<le> length (filter (\<lambda>f. f \<noteq> 0) freqs)"
  shows "\<exists>root codes. create_huff_tree freqs = Some (Inr (Some root)) \<and>
     create_code (Some root) = Inr codes \<and> length codes = 256 \<and>
     (\<forall>i<256. \<forall>j<256. i \<noteq> j \<and> freqs ! i \<noteq> 0 \<and> freqs ! j \<noteq> 0 \<longrightarrow>
        \<not> prefix (codes ! i) (codes ! j))"
proof -
  from assms(3) have "\<exists>f\<in>set freqs. f \<noteq> 0" by (rule nonzero_count)
  with assms(2) have "sum_list freqs \<noteq> 0" by (simp add: sum_list_nonneg_zero)
  from create_code_built[OF assms(1) this] obtain r codes where
    r: "create_huff_tree freqs = Some (Inr (Some r))" "create_code (Some r) = Inr codes"
      "length codes = 256"
      "\<forall>i<256. freqs ! i \<noteq> 0 \<longrightarrow> (int i, codes ! i) \<in> set (paths (Some r))"
    by blast
  have np: "\<not> prefix (codes ! i) (codes ! j)"
    if "i < 256" "j < 256" "i \<noteq> j" "freqs ! i \<noteq> 0" "freqs ! j \<noteq> 0" for i j
  proof
    assume p: "prefix (codes ! i) (codes ! j)"
    from that(1,4) r(4) have pi: "(int i, codes ! i) \<in> set (paths (Some r))" by blast
    from that(2,5) r(4) have pj: "(int j, codes ! j) \<in> set (paths (Some r))" by blast
    from paths_prefix[OF pi pj p] that(3) show False by simp
  qed
  have "\<forall>i<256. \<forall>j<256. i \<noteq> j \<and> freqs ! i \<noteq> 0 \<and> freqs ! j \<noteq> 0 \<longrightarrow>
        \<not> prefix (codes ! i) (codes ! j)"
    using np by blast
  with r(1,2,3) show ?thesis by blast
qed

theorem code_table_prefix_free_witness:
  "length (replicate 97 0 @ [3, 4, 2] @ replicate 156 (0::int)) = 256 \<and>
   length (filter (\<lambda>f. f \<noteq> 0) (replicate 97 0 @ [3, 4, 2] @ replicate 156 (0::int))) = 3 \<and>
   create_huff_tree (replicate 97 0 @ [3, 4, 2] @ replicate 156 0) =
     Some (Inr (Some (HuffmanNode 97 9 (Some (HuffmanNode 98 4 None None))
         (Some (HuffmanNode 97 5 (Some (HuffmanNode 99 2 None None)) (Some (HuffmanNode 97 3 None None))))))) \<and>
   create_code (Some (HuffmanNode 97 9 (Some (HuffmanNode 98 4 None None))
         (Some (HuffmanNode 97 5 (Some (HuffmanNode 99 2 None None)) (Some (HuffmanNode 97 3 None None)))))) =
     Inr (replicate 97 [] @ [''11'', ''0'', ''10''] @ replicate 156 []) \<and>
   \<not> prefix ((replicate 97 [] @ [''11'', ''0'', ''10''] @ replicate 156 []) ! 97)
       ((replicate 97 [] @ [''11'', ''0'', ''10''] @ replicate 156 []) ! 99) \<and>
   \<not> prefix ((replicate 97 [] @ [''11'', ''0'', ''10''] @ replicate 156 []) ! 99)
       ((replicate 97 [] @ [''11'', ''0'', ''10''] @ replicate 156 []) ! 97)"
proof -
  let ?F = "replicate 97 0 @ [3, 4, 2] @ replicate 156 (0::int)"
  let ?T = "HuffmanNode 97 9 (Some (HuffmanNode 98 4 None None))
         (Some (HuffmanNode 97 5 (Some (HuffmanNode 99 2 None None)) (Some (HuffmanNode 97 3 None None))))"
  let ?C = "replicate 97 [] @ [''11'', ''0'', ''10''] @ replicate 156 ([]::string)"
  have len: "length ?F = 256" by simp
  have nn: "\<forall>f\<in>set ?F. 0 \<le> f" by auto
  have cnt: "length (filter (\<lambda>f. f \<noteq> 0) ?F) = 3" by simp
  have e: "create_huff_tree ?F = Some (Inr (Some ?T))" by code_simp
  have c: "create_code (Some ?T) = Inr ?C" by code_simp
  have f: "?F ! 97 \<noteq> 0" "?F ! 99 \<noteq> 0" by (simp_all add: nth_append)
  from code_table_prefix_free [of ?F, OF len nn] cnt obtain root codes where
    r: "create_huff_tree ?F = Some (Inr (Some root))" "create_code (Some root) = Inr codes"
      "\<forall>i<256. \<forall>j<256. i \<noteq> j \<and> ?F ! i \<noteq> 0 \<and> ?F ! j \<noteq> 0 \<longrightarrow> \<not> prefix (codes ! i) (codes ! j)"
    by auto
  from r(1) e have "root = ?T" by simp
  with r(2) c have cc: "codes = ?C" by simp
  from r(3) f have "\<not> prefix (codes ! 97) (codes ! 99)" "\<not> prefix (codes ! 99) (codes ! 97)"
    by simp_all
  with cc len cnt e c show ?thesis by simp
qed

section \<open>The encoder\<close>

lemma text_of_append: "text_of (a @ b) = text_of a @ text_of b"
  by (simp add: text_of_def)

lemma encode_loop_eq:
  "\<forall>c\<in>set data. c < length code_list \<Longrightarrow>
   encode_loop code code_list data = Inr (code @ concat (map (\<lambda>char. code_list ! char) data))"
  by (induction data arbitrary: code) (simp_all add: py_get_nat)







section \<open>A single symbol\<close>

lemma filter_upt_single:
  assumes "k < n" "P k" "\<forall>i<n. i \<noteq> k \<longrightarrow> \<not> P i"
  shows "filter P [0..<n] = [k]"
proof (rule sorted_distinct_set_unique)
  show "sorted (filter P [0..<n])" by (simp add: sorted_wrt_filter)
  show "distinct (filter P [0..<n])" by simp
  show "sorted [k]" by simp
  show "distinct [k]" by simp
  show "set (filter P [0..<n]) = set [k]" using assms by auto
qed

lemma nonzero_entries_single:
  assumes "k < length freqs" "freqs ! k \<noteq> 0" "\<forall>i<length freqs. i \<noteq> k \<longrightarrow> freqs ! i = 0"
  shows "nonzero_entries freqs = [(int k, freqs ! k)]"
proof -
  have "filter (\<lambda>i. freqs ! i \<noteq> 0) [0..<length freqs] = [k]"
    using assms by (intro filter_upt_single) simp_all
  then show ?thesis by (simp add: nonzero_entries_filter)
qed

lemma single_sum:
  fixes freqs :: "int list"
  assumes "k < length freqs" "\<forall>i<length freqs. i \<noteq> k \<longrightarrow> freqs ! i = 0"
  shows "sum_list freqs = freqs ! k"
proof -
  have "sum_list (map snd (nonzero_entries freqs)) = freqs ! k"
  proof (cases "freqs ! k = 0")
    case True
    with assms(2) have "filter (\<lambda>i. freqs ! i \<noteq> 0) [0..<length freqs] = []"
      by (auto simp: filter_empty_conv)
    with True show ?thesis by (simp add: nonzero_entries_filter)
  next
    case False
    with assms show ?thesis by (simp add: nonzero_entries_single)
  qed
  then show ?thesis by (simp add: sum_nonzero_entries)
qed

lemma create_huff_tree_single:
  assumes "k < length freqs" "freqs ! k \<noteq> 0" "\<forall>i<length freqs. i \<noteq> k \<longrightarrow> freqs ! i = 0"
  shows "create_huff_tree freqs = Some (Inr (Some (HuffmanNode (int k) (freqs ! k) None None)))"
proof -
  have "sum_list freqs \<noteq> 0" using assms by (simp add: single_sum)
  from create_huff_tree_build[OF this] obtain r where
    r: "create_huff_tree freqs = Some (Inr (Some r))" "spec_build (spec_leaves freqs) = Some r"
    by blast
  have "spec_leaves freqs = [HuffmanNode (int k) (freqs ! k) None None]"
    using assms by (simp add: spec_leaves_def nonzero_entries_single)
  with r(2) have "r = HuffmanNode (int k) (freqs ! k) None None" by simp
  with r(1) show ?thesis by simp
qed

lemma replicate_update: "(replicate n x)[k := x] = replicate n x"
  by (induction n arbitrary: k) (simp_all split: nat.split)

lemma create_code_leaf:
  assumes "k < 256"
  shows "create_code (Some (HuffmanNode (int k) f None None)) = Inr (replicate 256 [])"
proof -
  have "k < length (replicate 256 ([]::string))" using assms by simp
  then have "py_set (replicate 256 ([]::string)) (int k) [] = Inr ((replicate 256 [])[k := []])"
    by (simp only: py_set_nat if_True)
  then show ?thesis by (simp only: create_code_def create_code_helper.simps replicate_update simp_thms if_True)
qed

lemma concat_replicate_Nil:
  "\<forall>c\<in>set data. c < n \<Longrightarrow> concat (map (\<lambda>char. replicate n [] ! char) data) = []"
  by (induction data) simp_all

lemma huffman_encode_single:
  assumes "length freqs = 256" "k < 256" "freqs ! k \<noteq> 0" "\<forall>i<256. i \<noteq> k \<longrightarrow> freqs ! i = 0"
    "cnt_freq fs in_file = Inr freqs"
  shows "huffman_encode fs in_file out_file =
     Some (fs(out_file \<mapsto> text_of (create_header freqs @ [CHR 0x0A])), None)"
proof -
  from cnt_freq_Inr[OF assms(5)] obtain data where
    d: "fs in_file = Some data" "\<forall>c\<in>set data. c < 256" by blast
  have t: "create_huff_tree freqs = Some (Inr (Some (HuffmanNode (int k) (freqs ! k) None None)))"
    using assms(1-4) by (intro create_huff_tree_single) simp_all
  have c: "create_code (Some (HuffmanNode (int k) (freqs ! k) None None)) = Inr (replicate 256 [])"
    using assms(2) by (rule create_code_leaf)
  from d(2) have "\<forall>c\<in>set data. c < length (replicate 256 ([]::string))" by simp
  from encode_loop_eq[OF this, of "[]"] concat_replicate_Nil[OF d(2)]
  have e: "encode_loop [] (replicate 256 []) data = Inr []" by simp
  show ?thesis
    unfolding huffman_encode_def assms(5) t c d(1) e sum.case option.case Let_def
    by (simp add: text_of_def)
qed

lemma single_table_example:
  "length (replicate 122 0 @ [4] @ replicate 133 (0::int)) = 256 \<and>
   (replicate 122 0 @ [4] @ replicate 133 (0::int)) ! 122 = 4 \<and>
   (\<forall>i<256. i \<noteq> 122 \<longrightarrow> (replicate 122 0 @ [4] @ replicate 133 (0::int)) ! i = 0)"
  by (simp add: nth_append nth_Cons')

lemma encode_single_example:
  "huffman_encode [''in'' \<mapsto> text_of ''zzzz''] ''in'' ''out'' =
     Some ([''in'' \<mapsto> text_of ''zzzz'', ''out'' \<mapsto> text_of (''122 4'' @ [CHR 0x0A])], None)"
proof -
  let ?F = "replicate 122 0 @ [4] @ replicate 133 (0::int)"
  have l: "cnt_loop (replicate 256 0) (text_of ''zzzz'') = Inr ?F" by code_simp
  have f: "cnt_freq [''in'' \<mapsto> text_of ''zzzz''] ''in'' = Inr ?F"
    using l by (simp add: cnt_freq_def)
  have h: "create_header ?F = ''122 4''" by code_simp
  from single_table_example have s: "length ?F = 256" "?F ! 122 \<noteq> 0"
    "\<forall>i<256. i \<noteq> 122 \<longrightarrow> ?F ! i = 0" by simp_all
  have "(122::nat) < 256" by simp
  from huffman_encode_single[OF s(1) this s(2,3) f, of "''out''"]
  have "huffman_encode [''in'' \<mapsto> text_of ''zzzz''] ''in'' ''out'' =
     Some ([''in'' \<mapsto> text_of ''zzzz'', ''out'' \<mapsto> text_of (''122 4'' @ [CHR 0x0A])], None)"
    unfolding h .
  then show ?thesis .
qed

text \<open>
  Claim C7. For every frequency table of 256 entries of which exactly one, at index \<open>k\<close>,
  is not zero, \<open>create_huff_tree\<close> returns the leaf for \<open>k\<close>, a node with no left and no
  right child, and \<open>create_code\<close> returns for it the table in which every entry, the one
  of \<open>k\<close> among them, is the empty string. On an input with this frequency table
  \<open>huffman_encode\<close> therefore writes the header, a newline and nothing else; for the
  input \<^verbatim>\<open>zzzz\<close> that is \<^verbatim>\<open>122 4\<close> and a newline.
\<close>

theorem single_symbol_table:
  assumes "length freqs = 256" "k < 256" "freqs ! k \<noteq> 0" "\<forall>i<256. i \<noteq> k \<longrightarrow> freqs ! i = 0"
  shows "create_huff_tree freqs = Some (Inr (Some (HuffmanNode (int k) (freqs ! k) None None))) \<and>
     create_code (Some (HuffmanNode (int k) (freqs ! k) None None)) = Inr (replicate 256 []) \<and>
     (\<forall>fs in_file out_file. cnt_freq fs in_file = Inr freqs \<longrightarrow>
        huffman_encode fs in_file out_file =
          Some (fs(out_file \<mapsto> text_of (create_header freqs @ [CHR 0x0A])), None)) \<and>
     huffman_encode [''in'' \<mapsto> text_of ''zzzz''] ''in'' ''out'' =
       Some ([''in'' \<mapsto> text_of ''zzzz'', ''out'' \<mapsto> text_of (''122 4'' @ [CHR 0x0A])], None)"
proof -
  have t: "create_huff_tree freqs = Some (Inr (Some (HuffmanNode (int k) (freqs ! k) None None)))"
    using assms by (intro create_huff_tree_single) simp_all
  have c: "create_code (Some (HuffmanNode (int k) (freqs ! k) None None)) = Inr (replicate 256 [])"
    using assms(2) by (rule create_code_leaf)
  have e: "\<forall>fs in_file out_file. cnt_freq fs in_file = Inr freqs \<longrightarrow>
        huffman_encode fs in_file out_file =
          Some (fs(out_file \<mapsto> text_of (create_header freqs @ [CHR 0x0A])), None)"
    using huffman_encode_single[OF assms] by blast
  from t c e encode_single_example show ?thesis by blast
qed

theorem single_symbol_table_witness:
  "create_huff_tree (replicate 122 0 @ [4] @ replicate 133 0) =
     Some (Inr (Some (HuffmanNode 122 4 None None))) \<and>
   create_code (Some (HuffmanNode 122 4 None None)) = Inr (replicate 256 []) \<and>
   cnt_freq [''in'' \<mapsto> [122, 122, 122, 122]] ''in'' = Inr (replicate 122 0 @ [4] @ replicate 133 0) \<and>
   create_header (replicate 122 0 @ [4] @ replicate 133 0) = ''122 4'' \<and>
   huffman_encode [''in'' \<mapsto> [122, 122, 122, 122]] ''in'' ''out'' =
     Some ([''in'' \<mapsto> [122, 122, 122, 122], ''out'' \<mapsto> text_of (''122 4'' @ [CHR 0x0A])], None)"
proof -
  let ?F = "replicate 122 0 @ [4] @ replicate 133 (0::int)"
  have l: "cnt_loop (replicate 256 0) [122, 122, 122, 122] = Inr ?F" by code_simp
  have f: "cnt_freq [''in'' \<mapsto> [122, 122, 122, 122]] ''in'' = Inr ?F"
    using l by (simp add: cnt_freq_def)
  have h: "create_header ?F = ''122 4''" by code_simp
  from single_table_example have s: "length ?F = 256" "?F ! 122 \<noteq> 0" "?F ! 122 = 4"
    "\<forall>i<256. i \<noteq> 122 \<longrightarrow> ?F ! i = 0" by simp_all
  have k: "(122::nat) < 256" by simp
  from single_symbol_table [of ?F 122, OF s(1) k s(2) s(4)] have
    t: "create_huff_tree ?F = Some (Inr (Some (HuffmanNode (int 122) (?F ! 122) None None)))"
    and c: "create_code (Some (HuffmanNode (int 122) (?F ! 122) None None)) = Inr (replicate 256 [])"
    and e: "\<forall>fs in_file out_file. cnt_freq fs in_file = Inr ?F \<longrightarrow>
        huffman_encode fs in_file out_file =
          Some (fs(out_file \<mapsto> text_of (create_header ?F @ [CHR 0x0A])), None)"
    by blast+
  from e f have "huffman_encode [''in'' \<mapsto> [122, 122, 122, 122]] ''in'' ''out'' =
     Some ([''in'' \<mapsto> [122, 122, 122, 122], ''out'' \<mapsto> text_of (create_header ?F @ [CHR 0x0A])], None)"
    by blast
  then have o: "huffman_encode [''in'' \<mapsto> [122, 122, 122, 122]] ''in'' ''out'' =
     Some ([''in'' \<mapsto> [122, 122, 122, 122], ''out'' \<mapsto> text_of (''122 4'' @ [CHR 0x0A])], None)"
    unfolding h .
  from t s(3) have t': "create_huff_tree ?F = Some (Inr (Some (HuffmanNode 122 4 None None)))"
    by simp
  from c s(3) have c': "create_code (Some (HuffmanNode 122 4 None None)) = Inr (replicate 256 [])"
    by simp
  from t' c' f h o show ?thesis by blast
qed


end
